theory Spec2Isabelle
  imports Complex_Main "HOL-Library.Word"
begin

section \<open>Python values used by the converter\<close>

subsection \<open>Exceptions\<close>

text \<open>
  The exception classes that can reach the two \<open>except\<close> clauses of
  \<open>convert_image_to_ascii\<close>. All of them derive from Python's \<open>Exception\<close>;
  \<open>UnidentifiedImageError\<close> is the class Pillow raises for a byte stream it cannot
  identify. An exception carries its class and the text \<open>str(e)\<close>.
\<close>

datatype exc_class =
    UnidentifiedImageError
  | OSError
  | ValueError
  | ZeroDivisionError
  | OverflowError
  | IndexError
  | TypeError
  | MemoryError

datatype py_exception = PyExc exc_class string

subsection \<open>Floats\<close>

text \<open>
  A Python float is an IEEE 754 binary64 number. A finite float is modelled by the real
  number it denotes (the sign of zero is not kept: no operation below observes it).
\<close>

datatype pyfloat = Finite real | PosInf | NegInf | NaN

text \<open>\<open>int.bit_length\<close>: the number of binary digits of a natural number.\<close>

fun bit_length :: "nat \<Rightarrow> nat" where
  "bit_length n = (if n = 0 then 0 else Suc (bit_length (n div 2)))"

declare bit_length.simps [simp del]

text \<open>Rounding to the nearest integer, ties to the even one.\<close>

definition round_half_even :: "real \<Rightarrow> int" where
  "round_half_even x =
     (let f = \<lfloor>x\<rfloor>; d = x - of_int f
      in if d < 1 / 2 then f else if 1 / 2 < d then f + 1 else if even f then f else f + 1)"

text \<open>For \<open>0 < x\<close>, the exponent \<open>e\<close> with \<open>2^e \<le> x < 2^(e+1)\<close>.\<close>

definition binade :: "real \<Rightarrow> int" where
  "binade x = (if 1 \<le> x then int (bit_length (nat \<lfloor>x\<rfloor>)) - 1
               else - int (bit_length (nat (\<lceil>1 / x\<rceil> - 1))))"

definition pow2 :: "int \<Rightarrow> real" where
  "pow2 k = (if 0 \<le> k then 2 ^ nat k else 1 / 2 ^ nat (- k))"

text \<open>
  Round-to-nearest-even onto the binary64 grid: 53 significant bits, spacing
  \<open>2^(e-52)\<close> in the binade \<open>e\<close>, and the fixed spacing \<open>2^(-1074)\<close> below
  \<open>2^(-1022)\<close> (gradual underflow). The exponent is not bounded above here; the
  operations below test the rounded value against \<open>2^1024\<close>.
\<close>

definition round_binary64 :: "real \<Rightarrow> real" where
  "round_binary64 x =
     (if x = 0 then 0
      else let e = max (binade \<bar>x\<bar>) (- 1022); ulp = pow2 (e - 52)
           in sgn x * of_int (round_half_even (\<bar>x\<bar> / ulp)) * ulp)"

text \<open>The float delivered by an IEEE operation whose exact result is \<open>x\<close>.\<close>

definition ieee_result :: "real \<Rightarrow> pyfloat" where
  "ieee_result x =
     (let r = round_binary64 x
      in if pow2 1024 \<le> r then PosInf else if r \<le> - pow2 1024 then NegInf else Finite r)"

text \<open>\<open>a / b\<close> on two ints: the correctly rounded quotient, or an exception.\<close>

definition py_truediv :: "int \<Rightarrow> int \<Rightarrow> py_exception + pyfloat" where
  "py_truediv a b =
     (if b = 0 then Inl (PyExc ZeroDivisionError ''division by zero'')
      else let r = round_binary64 (of_int a / of_int b)
           in if pow2 1024 \<le> \<bar>r\<bar>
              then Inl (PyExc OverflowError ''integer division result too large for a float'')
              else Inr (Finite r))"

text \<open>The conversion of an int operand in a mixed int/float operation.\<close>

definition float_of_int :: "int \<Rightarrow> py_exception + pyfloat" where
  "float_of_int a =
     (let r = round_binary64 (of_int a)
      in if pow2 1024 \<le> \<bar>r\<bar>
         then Inl (PyExc OverflowError ''int too large to convert to float'')
         else Inr (Finite r))"

definition inf_times :: "pyfloat \<Rightarrow> real \<Rightarrow> pyfloat" where
  "inf_times i x =
     (if x = 0 then NaN else if (0 < x) = (i = PosInf) then PosInf else NegInf)"

text \<open>\<open>x * y\<close> on two floats: never raises, overflows to an infinity.\<close>

fun float_mul :: "pyfloat \<Rightarrow> pyfloat \<Rightarrow> pyfloat" where
  "float_mul NaN y = NaN"
| "float_mul x NaN = NaN"
| "float_mul (Finite x) (Finite y) = ieee_result (x * y)"
| "float_mul (Finite x) i = inf_times i x"
| "float_mul i (Finite y) = inf_times i y"
| "float_mul i j = (if i = j then PosInf else NegInf)"

text \<open>\<open>a * y\<close> with \<open>a\<close> an int and \<open>y\<close> a float.\<close>

definition int_mul_float :: "int \<Rightarrow> pyfloat \<Rightarrow> py_exception + pyfloat" where
  "int_mul_float a y =
     (case float_of_int a of Inl e \<Rightarrow> Inl e | Inr x \<Rightarrow> Inr (float_mul x y))"

text \<open>\<open>int(x)\<close> on a float: truncation toward zero.\<close>

fun py_int :: "pyfloat \<Rightarrow> py_exception + int" where
  "py_int (Finite x) = Inr (if 0 \<le> x then \<lfloor>x\<rfloor> else \<lceil>x\<rceil>)"
| "py_int NaN = Inl (PyExc ValueError ''cannot convert float NaN to integer'')"
| "py_int i = Inl (PyExc OverflowError ''cannot convert float infinity to integer'')"

subsection \<open>Strings and lists\<close>

text \<open>\<open>s[i]\<close>: a negative index counts from the end; out of range raises.\<close>

definition str_getitem :: "string \<Rightarrow> int \<Rightarrow> py_exception + char" where
  "str_getitem s i =
     (let n = int (length s); j = (if i < 0 then i + n else i)
      in if 0 \<le> j \<and> j < n then Inr (s ! nat j)
         else Inl (PyExc IndexError ''string index out of range''))"

section \<open>The converter object\<close>

text \<open>
  An \<open>ImageToAscii\<close> object: what \<open>self.ASCII_CHARS\<close> (the class attribute) and
  \<open>self.width\<close> evaluate to. The methods are defined on the extensible record, so an
  object may carry any further attributes.
\<close>

record converter =
  ASCII_CHARS :: string
  width :: int

text \<open>\<open>ImageToAscii(width=40)\<close>: the class body and \<open>__init__\<close>.\<close>

definition ImageToAscii :: "int option \<Rightarrow> converter" where
  "ImageToAscii w =
     \<lparr>ASCII_CHARS = ''@%#*+=-:. '',
      width = (case w of None \<Rightarrow> 40 | Some v \<Rightarrow> v)\<rparr>"

text \<open>
  A method takes the object and returns what it returns or raises, with the object as
  the method leaves it.
\<close>

type_synonym ('a, 'm) py_method = "'m converter_scheme \<Rightarrow> (py_exception + 'a) \<times> 'm converter_scheme"

text \<open>The local \<open>index\<close> of \<open>_pixel_to_ascii\<close>.\<close>

definition pixel_index :: "int \<Rightarrow> 'm converter_scheme \<Rightarrow> py_exception + int" where
  "pixel_index pixel_value self =
     (case py_truediv (pixel_value * (int (length (ASCII_CHARS self)) - 1)) 255 of
        Inl e \<Rightarrow> Inl e
      | Inr q \<Rightarrow> py_int q)"

definition pixel_to_ascii :: "int \<Rightarrow> (char, 'm) py_method" where
  "pixel_to_ascii pixel_value self =
     (case pixel_index pixel_value self of
        Inl e \<Rightarrow> (Inl e, self)
      | Inr index \<Rightarrow> (str_getitem (ASCII_CHARS self) index, self))"

text \<open>
  The list comprehension of the row loop, joined by the empty string:
  \<open>''.join([self._pixel_to_ascii(pixel) for pixel in row])\<close>.
\<close>

fun ascii_row_of :: "int list \<Rightarrow> (string, 'm) py_method" where
  "ascii_row_of [] self = (Inr [], self)"
| "ascii_row_of (pixel # row) self =
     (case pixel_to_ascii pixel self of
        (Inl e, self') \<Rightarrow> (Inl e, self')
      | (Inr c, self') \<Rightarrow>
          (case ascii_row_of row self' of
             (Inl e, self'') \<Rightarrow> (Inl e, self'')
           | (Inr cs, self'') \<Rightarrow> (Inr (c # cs), self'')))"

text \<open>\<open>xs[lo:hi]\<close>: bounds are taken from the end when negative, then clipped.\<close>

definition slice_bound :: "nat \<Rightarrow> int \<Rightarrow> nat" where
  "slice_bound n i = (if i < 0 then nat (max 0 (i + int n)) else min n (nat i))"

definition py_slice :: "'a list \<Rightarrow> int \<Rightarrow> int \<Rightarrow> 'a list" where
  "py_slice xs lo hi =
     (let l = slice_bound (length xs) lo; h = slice_bound (length xs) hi
      in take (h - l) (drop l xs))"

text \<open>
  The body of \<open>for i in range(0, len(pixels), self.width)\<close>, from index \<open>i\<close> on,
  with the step the \<open>range\<close> was built with. A negative step gives an empty range.
\<close>

function rows_loop :: "int list \<Rightarrow> int \<Rightarrow> int \<Rightarrow> string list \<Rightarrow> (string list, 'm) py_method" where
  "rows_loop pixels step i ascii_art self =
     (if 0 < step \<and> i < int (length pixels) then
        (case ascii_row_of (py_slice pixels i (i + width self)) self of
           (Inl e, self') \<Rightarrow> (Inl e, self')
         | (Inr ascii_row, self') \<Rightarrow>
             rows_loop pixels step (i + step) (ascii_art @ [ascii_row]) self')
      else (Inr ascii_art, self))"
  by pat_completeness auto
termination
  by (relation "measure (\<lambda>(pixels, step, i, ascii_art, self). nat (int (length pixels) - i))") auto

declare rows_loop.simps [simp del]

text \<open>The whole loop; \<open>range\<close> rejects a zero step.\<close>

definition ascii_rows :: "int list \<Rightarrow> (string list, 'm) py_method" where
  "ascii_rows pixels self =
     (if width self = 0 then (Inl (PyExc ValueError ''range() arg 3 must not be zero''), self)
      else rows_loop pixels (width self) 0 [] self)"

text \<open>\<open>sep.join(xs)\<close>.\<close>

fun str_join :: "string \<Rightarrow> string list \<Rightarrow> string" where
  "str_join sep [] = []"
| "str_join sep [x] = x"
| "str_join sep (x # y # ys) = x @ sep @ str_join sep (y # ys)"

section \<open>The imaging library\<close>

text \<open>
  Pillow is not part of the repository. The converter is defined over any library with
  the five operations it calls, each of which may raise:
  \<open>Image.open(io.BytesIO(image_data))\<close>, \<open>image.convert(mode)\<close>, \<open>image.size\<close>,
  \<open>image.resize((w, h))\<close> and \<open>list(image.getdata())\<close>.
\<close>

type_synonym byte = "8 word"

record 'img pil =
  Image_open :: "byte list \<Rightarrow> py_exception + 'img"
  Image_convert :: "'img \<Rightarrow> string \<Rightarrow> py_exception + 'img"
  Image_size :: "'img \<Rightarrow> int \<times> int"
  Image_resize :: "'img \<Rightarrow> int \<times> int \<Rightarrow> py_exception + 'img"
  Image_getdata :: "'img \<Rightarrow> py_exception + int list"

section \<open>\<open>convert_image_to_ascii\<close>\<close>

text \<open>
  The local \<open>new_height\<close>, from \<open>image.size\<close> and \<open>self.width\<close>:
  \<open>int(self.width * (orig_height / orig_width) * 0.5)\<close>.
\<close>

definition new_height :: "int \<Rightarrow> int \<times> int \<Rightarrow> py_exception + int" where
  "new_height w sz =
     (case sz of (orig_width, orig_height) \<Rightarrow>
        (case py_truediv orig_height orig_width of
           Inl e \<Rightarrow> Inl e
         | Inr aspect_ratio \<Rightarrow>
             (case int_mul_float w aspect_ratio of
                Inl e \<Rightarrow> Inl e
              | Inr t \<Rightarrow> py_int (float_mul t (Finite (1 / 2))))))"

text \<open>The \<open>try\<close> block: its value is what it returns or the exception it raises.\<close>

definition convert_try :: "'img pil \<Rightarrow> byte list \<Rightarrow> (string, 'm) py_method" where
  "convert_try lib image_data self =
     (case Image_open lib image_data of
        Inl e \<Rightarrow> (Inl e, self)
      | Inr opened \<Rightarrow>
     (case Image_convert lib opened ''L'' of
        Inl e \<Rightarrow> (Inl e, self)
      | Inr gray \<Rightarrow>
     (case new_height (width self) (Image_size lib gray) of
        Inl e \<Rightarrow> (Inl e, self)
      | Inr h \<Rightarrow>
     (case Image_resize lib gray (width self, h) of
        Inl e \<Rightarrow> (Inl e, self)
      | Inr resized \<Rightarrow>
     (case Image_getdata lib resized of
        Inl e \<Rightarrow> (Inl e, self)
      | Inr pixels \<Rightarrow>
     (case ascii_rows pixels self of
        (Inl e, self') \<Rightarrow> (Inl e, self')
      | (Inr ascii_art, self') \<Rightarrow> (Inr (str_join [CHR 0x0A] ascii_art), self')))))))"

text \<open>
  The method: the \<open>try\<close> block under its two handlers,
  \<open>except UnidentifiedImageError\<close> first and \<open>except Exception as e\<close> second.
\<close>

definition convert_image_to_ascii :: "'img pil \<Rightarrow> byte list \<Rightarrow> (string, 'm) py_method" where
  "convert_image_to_ascii lib image_data self =
     (case convert_try lib image_data self of
        (Inr ascii, self') \<Rightarrow> (Inr ascii, self')
      | (Inl (PyExc UnidentifiedImageError msg), self') \<Rightarrow>
          (Inr ''[Image format not supported]'', self')
      | (Inl (PyExc cls msg), self') \<Rightarrow>
          (Inr (''[Error converting image: '' @ msg @ '']''), self'))"

section \<open>Configuration and the chat view\<close>

datatype pyval = PyNone | PyInt int | PyStr string

text \<open>The dict held by a \<open>Config\<close> object, as loaded from \<open>config.json\<close>.\<close>

type_synonym config = "string \<rightharpoonup> pyval"

definition DEFAULT_CONFIG :: "(string \<times> pyval) list" where
  "DEFAULT_CONFIG =
     [(''api_id'', PyNone),
      (''api_hash'', PyNone),
      (''session_file'', PyStr ''tg_session''),
      (''ascii_art_width'', PyInt 40),
      (''max_messages'', PyInt 50)]"

text \<open>The loop of \<open>_load_config\<close> that adds the missing default values.\<close>

fun fill_defaults :: "(string \<times> pyval) list \<Rightarrow> config \<Rightarrow> config" where
  "fill_defaults [] cfg = cfg"
| "fill_defaults ((key, val) # rest) cfg =
     fill_defaults rest (if key \<in> dom cfg then cfg else cfg(key \<mapsto> val))"

text \<open>The property \<open>Config.ascii_art_width\<close>: \<open>self.config.get("ascii_art_width", 40)\<close>.\<close>

definition ascii_art_width :: "config \<Rightarrow> pyval" where
  "ascii_art_width cfg = (case cfg ''ascii_art_width'' of None \<Rightarrow> PyInt 40 | Some v \<Rightarrow> v)"

text \<open>
  The attributes \<open>ChatView.__init__\<close> sets from its three arguments, before the view is
  built. The only converter the view ever uses is \<open>image_converter\<close>.
\<close>

record ('h, 'd, 'c) chat_view =
  telegram_handler :: 'h
  dialog :: 'd
  on_close :: 'c
  image_converter :: converter

definition ChatView :: "'h \<Rightarrow> 'd \<Rightarrow> 'c \<Rightarrow> ('h, 'd, 'c) chat_view" where
  "ChatView handler dlg close =
     \<lparr>telegram_handler = handler, dialog = dlg, on_close = close,
      image_converter = ImageToAscii None\<rparr>"

section \<open>Statements of the specification\<close>

text \<open>\<open>t in s\<close> on strings.\<close>

fun contains :: "string \<Rightarrow> string \<Rightarrow> bool" where
  "contains [] t = (t = [])"
| "contains (c # cs) t = (take (length t) (c # cs) = t \<or> contains cs t)"

text \<open>\<open>s.split(sep)\<close> for a one-character separator.\<close>

fun split_on :: "char \<Rightarrow> string \<Rightarrow> string list" where
  "split_on sep [] = [[]]"
| "split_on sep (c # cs) =
     (if c = sep then [] # split_on sep cs
      else (case split_on sep cs of [] \<Rightarrow> [[c]] | l # ls \<Rightarrow> (c # l) # ls))"

text \<open>
  The height formula as the specification words it, with \<open>round\<close> (Python's, on a
  float: to the nearest integer, ties to even) where the code has \<open>int\<close>.
\<close>

fun py_round :: "pyfloat \<Rightarrow> py_exception + int" where
  "py_round (Finite x) = Inr (round_half_even x)"
| "py_round NaN = Inl (PyExc ValueError ''cannot convert float NaN to integer'')"
| "py_round i = Inl (PyExc OverflowError ''cannot convert float infinity to integer'')"

definition spec_new_height :: "int \<Rightarrow> int \<times> int \<Rightarrow> py_exception + int" where
  "spec_new_height w sz =
     (case sz of (orig_width, orig_height) \<Rightarrow>
        (case py_truediv orig_height orig_width of
           Inl e \<Rightarrow> Inl e
         | Inr aspect_ratio \<Rightarrow>
             (case int_mul_float w aspect_ratio of
                Inl e \<Rightarrow> Inl e
              | Inr t \<Rightarrow> py_round (float_mul t (Finite (1 / 2))))))"

section \<open>A small imaging library for running the converter\<close>

text \<open>
  An instance of the library interface that can be evaluated: a buffer is a width byte,
  a height byte and then the gray samples row by row; resizing picks the nearest source
  sample and, like Pillow, rejects a target size below 1.
\<close>

record raw_image =
  raw_size :: "int \<times> int"
  raw_data :: "int list"

definition raw_open :: "byte list \<Rightarrow> py_exception + raw_image" where
  "raw_open bs =
     (case bs of
        w # h # samples \<Rightarrow>
          if length samples = unat w * unat h
          then Inr \<lparr>raw_size = (uint w, uint h), raw_data = map uint samples\<rparr>
          else Inl (PyExc OSError ''image file is truncated'')
      | _ \<Rightarrow> Inl (PyExc UnidentifiedImageError ''cannot identify image file''))"

definition raw_resize :: "raw_image \<Rightarrow> int \<times> int \<Rightarrow> py_exception + raw_image" where
  "raw_resize im sz =
     (case (raw_size im, sz) of ((ow, oh), (w, h)) \<Rightarrow>
        if w < 1 \<or> h < 1 then Inl (PyExc ValueError ''height and width must be > 0'')
        else Inr \<lparr>raw_size = (w, h),
                  raw_data = concat (map (\<lambda>y. map (\<lambda>x.
                      raw_data im ! nat ((y * oh div h) * ow + x * ow div w)) [0..<nat w])
                    [0..<nat h])\<rparr>)"

definition raw_pil :: "raw_image pil" where
  "raw_pil =
     \<lparr>Image_open = raw_open,
      Image_convert = (\<lambda>im mode. Inr im),
      Image_size = raw_size,
      Image_resize = raw_resize,
      Image_getdata = (\<lambda>im. Inr (raw_data im))\<rparr>"

section \<open>The process around a call\<close>

text \<open>
  Inside the process the library is not a function of its arguments alone: a call may
  read and change state the converter never sees (the decoders the library registers on
  first use, its caches, open files). That state has any type \<open>'w\<close>; every operation
  takes it and returns it as the call leaves it.
\<close>

record ('img, 'w) pil_io =
  open_io :: "byte list \<Rightarrow> 'w \<Rightarrow> (py_exception + 'img) \<times> 'w"
  convert_io :: "'img \<Rightarrow> string \<Rightarrow> 'w \<Rightarrow> (py_exception + 'img) \<times> 'w"
  size_io :: "'img \<Rightarrow> 'w \<Rightarrow> (int \<times> int) \<times> 'w"
  resize_io :: "'img \<Rightarrow> int \<times> int \<Rightarrow> 'w \<Rightarrow> (py_exception + 'img) \<times> 'w"
  getdata_io :: "'img \<Rightarrow> 'w \<Rightarrow> (py_exception + int list) \<times> 'w"

text \<open>The \<open>try\<close> block with the library's state threaded through its five calls.\<close>

definition convert_try_io ::
  "('img, 'w) pil_io \<Rightarrow> byte list \<Rightarrow> 'm converter_scheme \<Rightarrow> 'w
     \<Rightarrow> ((py_exception + string) \<times> 'm converter_scheme) \<times> 'w" where
  "convert_try_io lib image_data self w0 =
     (case open_io lib image_data w0 of
        (Inl e, w1) \<Rightarrow> ((Inl e, self), w1)
      | (Inr opened, w1) \<Rightarrow>
     (case convert_io lib opened ''L'' w1 of
        (Inl e, w2) \<Rightarrow> ((Inl e, self), w2)
      | (Inr gray, w2) \<Rightarrow>
     (case size_io lib gray w2 of (sz, w3) \<Rightarrow>
     (case new_height (width self) sz of
        Inl e \<Rightarrow> ((Inl e, self), w3)
      | Inr h \<Rightarrow>
     (case resize_io lib gray (width self, h) w3 of
        (Inl e, w4) \<Rightarrow> ((Inl e, self), w4)
      | (Inr resized, w4) \<Rightarrow>
     (case getdata_io lib resized w4 of
        (Inl e, w5) \<Rightarrow> ((Inl e, self), w5)
      | (Inr pixels, w5) \<Rightarrow>
     (case ascii_rows pixels self of
        (Inl e, self') \<Rightarrow> ((Inl e, self'), w5)
      | (Inr ascii_art, self') \<Rightarrow> ((Inr (str_join [CHR 0x0A] ascii_art), self'), w5))))))))"

text \<open>The method in the process: the same two handlers around that block.\<close>

definition convert_image_to_ascii_io ::
  "('img, 'w) pil_io \<Rightarrow> byte list \<Rightarrow> 'm converter_scheme \<Rightarrow> 'w
     \<Rightarrow> ((py_exception + string) \<times> 'm converter_scheme) \<times> 'w" where
  "convert_image_to_ascii_io lib image_data self w0 =
     (case convert_try_io lib image_data self w0 of
        ((Inr ascii, self'), w') \<Rightarrow> ((Inr ascii, self'), w')
      | ((Inl (PyExc UnidentifiedImageError msg), self'), w') \<Rightarrow>
          ((Inr ''[Image format not supported]'', self'), w')
      | ((Inl (PyExc cls msg), self'), w') \<Rightarrow>
          ((Inr (''[Error converting image: '' @ msg @ '']''), self'), w'))"

text \<open>
  The state of the process: the class attribute \<open>ImageToAscii.ASCII_CHARS\<close>, one for
  all converters; the attribute \<open>width\<close> of every converter object, by object
  reference; and the rest, which only the library touches.
\<close>

record 'w process =
  class_ASCII_CHARS :: string
  instance_width :: "nat \<Rightarrow> int"
  world :: 'w

text \<open>
  A call \<open>obj.convert_image_to_ascii(image_data)\<close>: \<open>self\<close> gives the method the two
  attributes it can reach, and the state after the call holds them as the method left
  them.
\<close>

definition call_convert ::
  "('img, 'w) pil_io \<Rightarrow> nat \<Rightarrow> byte list \<Rightarrow> 'w process \<Rightarrow> (py_exception + string) \<times> 'w process" where
  "call_convert lib obj image_data st =
     (case convert_image_to_ascii_io lib image_data
             \<lparr>ASCII_CHARS = class_ASCII_CHARS st, width = instance_width st obj\<rparr> (world st) of
        ((result, self'), w') \<Rightarrow>
          (result, st\<lparr>class_ASCII_CHARS := ASCII_CHARS self',
                      instance_width := (instance_width st)(obj := width self'),
                      world := w'\<rparr>))"

text \<open>
  What a statement about the calls may assume of the library: that its results are a
  function of its arguments, and that its effects stay within a relation \<open>R\<close> between
  the state before and after a call.
\<close>

definition lib_deterministic :: "('img, 'w) pil_io \<Rightarrow> bool" where
  "lib_deterministic lib \<longleftrightarrow>
     (\<forall>w w'. (\<forall>bs. fst (open_io lib bs w) = fst (open_io lib bs w'))
        \<and> (\<forall>im mode. fst (convert_io lib im mode w) = fst (convert_io lib im mode w'))
        \<and> (\<forall>im. fst (size_io lib im w) = fst (size_io lib im w'))
        \<and> (\<forall>im sz. fst (resize_io lib im sz w) = fst (resize_io lib im sz w'))
        \<and> (\<forall>im. fst (getdata_io lib im w) = fst (getdata_io lib im w')))"

definition lib_effects_within :: "('w \<Rightarrow> 'w \<Rightarrow> bool) \<Rightarrow> ('img, 'w) pil_io \<Rightarrow> bool" where
  "lib_effects_within R lib \<longleftrightarrow>
     (\<forall>w. (\<forall>bs. R w (snd (open_io lib bs w)))
        \<and> (\<forall>im mode. R w (snd (convert_io lib im mode w)))
        \<and> (\<forall>im. R w (snd (size_io lib im w)))
        \<and> (\<forall>im sz. R w (snd (resize_io lib im sz w)))
        \<and> (\<forall>im. R w (snd (getdata_io lib im w))))"

text \<open>
  A library over a call counter, for running the calls: every operation of the pure
  library, and one more call counted.
\<close>

definition counting :: "'img pil \<Rightarrow> ('img, nat) pil_io" where
  "counting lib =
     \<lparr>open_io = (\<lambda>bs n. (Image_open lib bs, Suc n)),
      convert_io = (\<lambda>im mode n. (Image_convert lib im mode, Suc n)),
      size_io = (\<lambda>im n. (Image_size lib im, Suc n)),
      resize_io = (\<lambda>im sz n. (Image_resize lib im sz, Suc n)),
      getdata_io = (\<lambda>im n. (Image_getdata lib im, Suc n))\<rparr>"

text \<open>The library as a function of its arguments, read off in the state \<open>w\<close>.\<close>

definition pure_at :: "('img, 'w) pil_io \<Rightarrow> 'w \<Rightarrow> 'img pil" where
  "pure_at lib w =
     \<lparr>Image_open = (\<lambda>bs. fst (open_io lib bs w)),
      Image_convert = (\<lambda>im mode. fst (convert_io lib im mode w)),
      Image_size = (\<lambda>im. fst (size_io lib im w)),
      Image_resize = (\<lambda>im sz. fst (resize_io lib im sz w)),
      Image_getdata = (\<lambda>im. fst (getdata_io lib im w))\<rparr>"

section \<open>Evaluation of the float operations\<close>

lemma bit_length_0: "bit_length 0 = 0"
  by (simp add: bit_length.simps)

lemma bit_length_1: "bit_length (Suc 0) = Suc 0" "bit_length 1 = 1"
  by (simp_all add: bit_length.simps)

lemma bit_length_numeral: "bit_length (numeral k) = Suc (bit_length (numeral k div 2))"
  by (subst bit_length.simps) simp

lemmas float_eval =
  round_binary64_def binade_def pow2_def round_half_even_def
  bit_length_0 bit_length_1 bit_length_numeral Let_def

section \<open>Accuracy of the float operations\<close>

text \<open>
  Below 16 the grid spacing is at most \<open>2^(-49)\<close>, so rounding moves a value by at most
  \<open>2^(-50)\<close> and leaves the integers fixed. A quotient of small ints then truncates to
  the integer quotient.
\<close>

lemma round_half_even_err: "\<bar>of_int (round_half_even y) - y\<bar> \<le> 1 / 2"
proof -
  have "of_int \<lfloor>y\<rfloor> \<le> y" "y < of_int \<lfloor>y\<rfloor> + 1"
    by linarith+
  then show ?thesis
    by (auto simp: round_half_even_def Let_def)
qed

lemma round_half_even_of_int: "round_half_even (of_int n) = n"
  by (simp add: round_half_even_def)

lemma bit_length_le: "n < 2 ^ k \<Longrightarrow> bit_length n \<le> k"
proof (induction k arbitrary: n)
  case 0
  then show ?case by (simp add: bit_length.simps)
next
  case (Suc k)
  show ?case
  proof (cases "n = 0")
    case True
    then show ?thesis by (simp add: bit_length.simps)
  next
    case False
    from Suc.prems have "n div 2 < 2 ^ k" by simp
    then have "bit_length (n div 2) \<le> k" by (rule Suc.IH)
    with False show ?thesis by (subst bit_length.simps) simp
  qed
qed

lemma binade_le3:
  assumes "0 < x" "x < 16"
  shows "binade x \<le> 3"
proof (cases "1 \<le> x")
  case True
  have "\<lfloor>x\<rfloor> < 16" using assms by (simp add: floor_less_iff)
  then have "nat \<lfloor>x\<rfloor> < 16" by linarith
  then have "nat \<lfloor>x\<rfloor> < 2 ^ 4" by simp
  then have "bit_length (nat \<lfloor>x\<rfloor>) \<le> 4" by (rule bit_length_le)
  with True show ?thesis by (simp add: binade_def)
next
  case False
  then show ?thesis by (simp add: binade_def)
qed

lemma pow2_pos: "0 < pow2 k"
  by (simp add: pow2_def)

lemma ulp_small:
  assumes "e \<le> 3"
  shows "pow2 (e - 52) \<le> 1 / 2 ^ 49" "\<exists>m. pow2 (e - 52) = 1 / 2 ^ m"
proof -
  have "(2::real) ^ 49 \<le> 2 ^ nat (52 - e)"
    using assms by (intro power_increasing) auto
  then show "pow2 (e - 52) \<le> 1 / 2 ^ 49"
    using assms by (simp add: pow2_def frac_le)
  show "\<exists>m. pow2 (e - 52) = 1 / 2 ^ m"
    using assms by (auto simp: pow2_def)
qed

lemma round_binary64_pos:
  "0 < x \<Longrightarrow> round_binary64 x =
     of_int (round_half_even (x / pow2 (max (binade x) (- 1022) - 52)))
       * pow2 (max (binade x) (- 1022) - 52)"
  by (simp add: round_binary64_def Let_def)

lemma round_binary64_err:
  assumes "0 < x" "x < 16"
  shows "\<bar>round_binary64 x - x\<bar> \<le> 1 / 2 ^ 50"
proof -
  define e where "e = max (binade \<bar>x\<bar>) (- 1022)"
  define ulp where "ulp = pow2 (e - 52)"
  define k where "k = round_half_even (\<bar>x\<bar> / ulp)"
  have e: "e \<le> 3" using binade_le3 [OF assms] assms by (simp add: e_def)
  have ulp: "0 < ulp" "ulp \<le> 1 / 2 ^ 49"
    using pow2_pos ulp_small(1) [OF e] by (simp_all add: ulp_def)
  have r: "round_binary64 x = of_int k * ulp"
    using assms by (simp add: round_binary64_def Let_def e_def ulp_def k_def)
  have "\<bar>of_int k - x / ulp\<bar> \<le> 1 / 2"
    using round_half_even_err [of "\<bar>x\<bar> / ulp"] assms by (simp add: k_def)
  then have "\<bar>of_int k - x / ulp\<bar> * ulp \<le> 1 / 2 * ulp"
    using ulp(1) by (intro mult_right_mono) auto
  moreover have "\<bar>of_int k - x / ulp\<bar> * ulp = \<bar>of_int k * ulp - x\<bar>"
  proof -
    have "(of_int k - x / ulp) * ulp = of_int k * ulp - x"
      using ulp(1) by (simp add: left_diff_distrib)
    then have "\<bar>of_int k * ulp - x\<bar> = \<bar>of_int k - x / ulp\<bar> * \<bar>ulp\<bar>"
      by (simp only: abs_mult [symmetric])
    with ulp(1) show ?thesis by simp
  qed
  ultimately have "\<bar>of_int k * ulp - x\<bar> \<le> 1 / 2 * ulp" by simp
  with ulp(2) r show ?thesis by simp
qed

lemma round_binary64_small_int:
  assumes "0 \<le> n" "n < 16"
  shows "round_binary64 (of_int n) = of_int n"
proof (cases "n = 0")
  case True
  then show ?thesis by (simp add: round_binary64_def)
next
  case False
  define x :: real where "x = of_int n"
  define e where "e = max (binade x) (- 1022)"
  have x: "0 < x" "x < 16" using assms False by (simp_all add: x_def)
  have e: "e \<le> 3" using binade_le3 [OF x] x by (simp add: e_def)
  obtain m where m: "pow2 (e - 52) = 1 / 2 ^ m" using ulp_small(2) [OF e] by blast
  have "x / pow2 (e - 52) = of_int (n * 2 ^ m)"
    using x by (simp add: m x_def)
  then have "round_half_even (x / pow2 (e - 52)) = n * 2 ^ m"
    by (simp only: round_half_even_of_int)
  then have "round_binary64 x = of_int (n * 2 ^ m) * (1 / 2 ^ m)"
    using x by (simp add: round_binary64_pos e_def [symmetric] m)
  then show ?thesis by (simp add: x_def)
qed

lemma py_truediv_small:
  assumes "0 \<le> a" "0 < b" "a < 16 * b" "b \<le> 2 ^ 40"
  shows "\<exists>r. py_truediv a b = Inr (Finite r) \<and> 0 \<le> r \<and> \<lfloor>r\<rfloor> = a div b"
proof -
  define x :: real where "x = of_int a / of_int b"
  define q where "q = a div b"
  define r where "r = round_binary64 x"
  have q: "0 \<le> q" "q < 16"
  proof -
    show "0 \<le> q" using assms by (simp add: q_def pos_imp_zdiv_nonneg_iff)
    have "q * b \<le> a"
      using assms(2) pos_mod_sign [of b a] div_mult_mod_eq [of a b] unfolding q_def by linarith
    then have "q * b < 16 * b" using assms(3) by linarith
    with assms(2) show "q < 16"
      by (simp only: mult_less_cancel_right_pos)
  qed
  have "r \<ge> 0 \<and> r < 17 \<and> \<lfloor>r\<rfloor> = q"
  proof (cases "a mod b = 0")
    case True
    then have "a = q * b" using div_mult_mod_eq [of a b] by (simp add: q_def)
    then have "x = of_int q" using assms by (simp add: x_def)
    then have "r = of_int q" using round_binary64_small_int [OF q] by (simp add: r_def)
    with q show ?thesis by simp
  next
    case False
    have ab: "a = q * b + a mod b" by (simp add: q_def)
    have m: "1 \<le> a mod b" "a mod b \<le> b - 1"
      using False assms pos_mod_sign [of b a] pos_mod_bound [of b a] by linarith+
    have xq: "x = of_int q + of_int (a mod b) / of_int b"
      unfolding x_def q_def by (rule of_int_div_aux)
    have bb: "1 / 2 ^ 40 \<le> 1 / real_of_int b"
      using assms by (intro frac_le) auto
    have lo: "1 / real_of_int b \<le> of_int (a mod b) / of_int b"
      using m assms by (intro divide_right_mono) auto
    have hi: "of_int (a mod b) / real_of_int b \<le> 1 - 1 / of_int b"
    proof -
      have "real_of_int (a mod b) \<le> of_int (b - 1)"
        using m(2) by (simp only: of_int_le_iff)
      moreover have "0 \<le> real_of_int b" using assms(2) by simp
      ultimately have "of_int (a mod b) / real_of_int b \<le> of_int (b - 1) / of_int b"
        by (rule divide_right_mono)
      also have "\<dots> = 1 - 1 / of_int b" using assms by (simp add: diff_divide_distrib)
      finally show ?thesis .
    qed
    define t where "t = real_of_int (a mod b) / of_int b"
    define u where "u = 1 / real_of_int b"
    define d :: real where "d = 1 / 2 ^ 50"
    define c :: real where "c = 1 / 2 ^ 40"
    have d: "0 < d" "d < c" by (simp_all add: d_def c_def)
    have t: "x = of_int q + t" "u \<le> t" "t \<le> 1 - u" "c \<le> u"
      using xq lo hi bb by (simp_all only: t_def u_def c_def)
    have q': "0 \<le> real_of_int q" "real_of_int q \<le> 15" using q by simp_all
    have x: "0 < x" "x < 16" using t q' d by linarith+
    have "\<bar>r - x\<bar> \<le> d" unfolding r_def d_def by (rule round_binary64_err [OF x])
    then have "of_int q < r \<and> r < of_int q + 1"
      using t d by linarith
    then have "\<lfloor>r\<rfloor> = q \<and> 0 \<le> r \<and> r < 17" using q by (auto simp: floor_eq_iff) 
    then show ?thesis by simp
  qed
  moreover have "\<bar>r\<bar> < pow2 1024" if "0 \<le> r" "r < 17"
  proof -
    have "(17::real) \<le> 2 ^ 1024" by simp
    with that show ?thesis by (simp add: pow2_def)
  qed
  ultimately show ?thesis
    using assms by (auto simp: py_truediv_def Let_def x_def r_def q_def)
qed


lemma int_truediv_small:
  assumes "0 \<le> a" "0 < b" "a < 16 * b" "b \<le> 2 ^ 40"
  shows "(case py_truediv a b of Inl e \<Rightarrow> Inl e | Inr q \<Rightarrow> py_int q) = Inr (a div b)"
proof -
  obtain r where "py_truediv a b = Inr (Finite r)" "0 \<le> r" "\<lfloor>r\<rfloor> = a div b"
    using py_truediv_small [OF assms] by blast
  then show ?thesis by simp
qed

section \<open>The glyph ramp\<close>

lemma ramp_simps:
  "ASCII_CHARS (ImageToAscii w) = ''@%#*+=-:. ''"
  "width (ImageToAscii w) = (case w of None \<Rightarrow> 40 | Some v \<Rightarrow> v)"
  by (simp_all add: ImageToAscii_def)

lemma pixel_index_byte:
  assumes "length (ASCII_CHARS self) = 10" "0 \<le> v" "v \<le> 255"
  shows "pixel_index v self = Inr (v * 9 div 255)"
proof -
  have "(case py_truediv (v * 9) 255 of Inl e \<Rightarrow> Inl e | Inr q \<Rightarrow> py_int q) = Inr (v * 9 div 255)"
    using assms by (intro int_truediv_small) auto
  then show ?thesis using assms by (simp add: pixel_index_def)
qed

lemma byte_index_range:
  fixes v :: int
  assumes "0 \<le> v" "v \<le> 255"
  shows "0 \<le> v * 9 div 255" "v * 9 div 255 \<le> 9"
  using assms by auto

lemma floor_index: "\<lfloor>real_of_int v * (10 - 1) / 255\<rfloor> = v * 9 div 255"
proof -
  have "real_of_int v * (10 - 1) / 255 = real_of_int (v * 9) / real_of_int 255" by simp
  then show ?thesis by (simp only: floor_divide_of_int_eq)
qed

section \<open>Quantization of a sample\<close>

text \<open>
  C6. For every luminance sample \<open>v\<close> with \<open>0 \<le> v \<le> 255\<close>, \<open>_pixel_to_ascii\<close> returns
  the ramp character at index \<open>floor(v * (L - 1) / 255)\<close> clamped to \<open>[0, L - 1]\<close>, with
  \<open>L = 10\<close> the ramp length; the sample 0 gives the first character \<open>@\<close> and the
  sample 255 the last one, the blank.
\<close>

theorem pixel_to_ascii_quantizes:
  "(0 \<le> v \<and> v \<le> 255 \<longrightarrow>
      fst (pixel_to_ascii v (ImageToAscii w)) =
        Inr (''@%#*+=-:. '' ! nat (max 0 (min (10 - 1) \<lfloor>real_of_int v * (10 - 1) / 255\<rfloor>))))
   \<and> fst (pixel_to_ascii 0 (ImageToAscii w)) = Inr (CHR ''@'')
   \<and> fst (pixel_to_ascii 255 (ImageToAscii w)) = Inr (CHR '' '')"
proof -
  have len: "length (ASCII_CHARS (ImageToAscii w)) = 10" by (simp add: ramp_simps)
  have gen: "fst (pixel_to_ascii v (ImageToAscii w)) = Inr (''@%#*+=-:. '' ! nat (v * 9 div 255))"
    if "0 \<le> v" "v \<le> 255" for v
    using that byte_index_range [OF that] pixel_index_byte [OF len that]
    by (simp add: pixel_to_ascii_def str_getitem_def ramp_simps)
  have "fst (pixel_to_ascii v (ImageToAscii w)) =
        Inr (''@%#*+=-:. '' ! nat (max 0 (min (10 - 1) \<lfloor>real_of_int v * (10 - 1) / 255\<rfloor>)))"
    if "0 \<le> v" "v \<le> 255"
    using gen [OF that] byte_index_range [OF that] by (simp only: floor_index) simp
  moreover have "fst (pixel_to_ascii 0 (ImageToAscii w)) = Inr (CHR ''@'')"
    using gen [of 0] by simp
  moreover have "fst (pixel_to_ascii 255 (ImageToAscii w)) = Inr (CHR '' '')"
    using gen [of 255] by simp
  ultimately show ?thesis by blast
qed

theorem pixel_to_ascii_quantizes_witness:
  "fst (pixel_to_ascii 128 (ImageToAscii None)) = Inr (CHR ''+'')"
  using pixel_to_ascii_quantizes [of 128 None] by simp

text \<open>
  C10. For every sample \<open>v\<close> with \<open>0 \<le> v \<le> 255\<close> the index computed by
  \<open>_pixel_to_ascii\<close> lies in \<open>[0, L - 1]\<close>, so the lookup in the ramp succeeds although
  the code does not clamp; outside that range it can fail: the sample 284 gives the
  index 10 and the lookup raises IndexError.
\<close>

theorem pixel_index_in_bounds:
  "(0 \<le> v \<and> v \<le> 255 \<longrightarrow>
      (\<exists>i c. pixel_index v (ImageToAscii w) = Inr i \<and> 0 \<le> i
         \<and> i \<le> int (length (ASCII_CHARS (ImageToAscii w))) - 1
         \<and> fst (pixel_to_ascii v (ImageToAscii w)) = Inr c))
   \<and> pixel_index 284 (ImageToAscii w) = Inr 10
   \<and> fst (pixel_to_ascii 284 (ImageToAscii w)) = Inl (PyExc IndexError ''string index out of range'')"
proof -
  have len: "length (ASCII_CHARS (ImageToAscii w)) = 10" by (simp add: ramp_simps)
  have "\<exists>i c. pixel_index v (ImageToAscii w) = Inr i \<and> 0 \<le> i
         \<and> i \<le> int (length (ASCII_CHARS (ImageToAscii w))) - 1
         \<and> fst (pixel_to_ascii v (ImageToAscii w)) = Inr c"
    if "0 \<le> v" "v \<le> 255"
    using byte_index_range [OF that] pixel_index_byte [OF len that]
    by (simp add: pixel_to_ascii_def str_getitem_def ramp_simps)
  moreover have i: "pixel_index 284 (ImageToAscii w) = Inr 10"
    by (simp add: pixel_index_def ramp_simps py_truediv_def float_eval)
  moreover have "fst (pixel_to_ascii 284 (ImageToAscii w)) = Inl (PyExc IndexError ''string index out of range'')"
    by (simp add: pixel_to_ascii_def i str_getitem_def ramp_simps)
  ultimately show ?thesis by blast
qed

theorem pixel_index_in_bounds_witness:
  "pixel_index 200 (ImageToAscii None) = Inr 7
   \<and> fst (pixel_to_ascii 200 (ImageToAscii None)) = Inr (CHR '':'')"
  using pixel_index_in_bounds [of 200 None]
  by (simp add: pixel_index_def pixel_to_ascii_def str_getitem_def ramp_simps py_truediv_def float_eval)

section \<open>The object is left as it was\<close>

lemma pixel_to_ascii_state: "snd (pixel_to_ascii v self) = self"
  by (simp add: pixel_to_ascii_def split: sum.split)

lemma pixel_to_ascii_eq: "pixel_to_ascii v self = (r, s) \<Longrightarrow> s = self"
  using pixel_to_ascii_state [of v self] by simp

lemma ascii_row_of_state: "snd (ascii_row_of row self) = self"
proof (induction row arbitrary: self)
  case Nil
  show ?case by simp
next
  case (Cons pixel row)
  obtain r where r: "pixel_to_ascii pixel self = (r, self)"
    using pixel_to_ascii_state [of pixel self] by (cases "pixel_to_ascii pixel self") simp
  obtain rs where rs: "ascii_row_of row self = (rs, self)"
    using Cons.IH [of self] by (cases "ascii_row_of row self") simp
  show ?case by (simp add: r rs split: sum.split)
qed

lemma ascii_row_of_eq: "ascii_row_of row self = (r, s) \<Longrightarrow> s = self"
  using ascii_row_of_state [of row self] by simp

lemma rows_loop_state: "snd (rows_loop pixels step i ascii_art self) = self"
proof (induction pixels step i ascii_art self rule: rows_loop.induct)
  case (1 pixels step i ascii_art self)
  show ?case
  proof (cases "0 < step \<and> i < int (length pixels)")
    case False
    then show ?thesis by (subst rows_loop.simps) auto
  next
    case True
    obtain r where r: "ascii_row_of (py_slice pixels i (i + width self)) self = (r, self)"
      using ascii_row_of_state [of "py_slice pixels i (i + width self)" self]
      by (cases "ascii_row_of (py_slice pixels i (i + width self)) self") simp
    show ?thesis
    proof (cases r)
      case (Inl e)
      with True r show ?thesis by (subst rows_loop.simps) simp
    next
      case (Inr row)
      with True r "1.IH" show ?thesis
        by (subst rows_loop.simps) simp
    qed
  qed
qed

lemma ascii_rows_state: "snd (ascii_rows pixels self) = self"
  by (simp add: ascii_rows_def rows_loop_state)

lemma convert_try_state: "snd (convert_try lib image_data self) = self"
proof -
  have "snd (case ascii_rows pixels self of
               (Inl e, self') \<Rightarrow> (Inl e, self')
             | (Inr ascii_art, self') \<Rightarrow> (Inr (str_join [CHR 0x0A] ascii_art), self')) = self"
    for pixels
    using ascii_rows_state [of pixels self]
    by (cases "ascii_rows pixels self") (auto split: sum.split)
  then show ?thesis
    by (simp add: convert_try_def split: sum.split)
qed

section \<open>Rows\<close>

lemma pixel_to_ascii_in_ramp:
  "pixel_to_ascii v self = (Inr c, s) \<Longrightarrow> c \<in> set (ASCII_CHARS self)"
  by (auto simp: pixel_to_ascii_def str_getitem_def Let_def split: sum.splits if_splits)

lemma ascii_row_of_Inr:
  "ascii_row_of row self = (Inr cs, s) \<Longrightarrow>
     length cs = length row \<and> set cs \<subseteq> set (ASCII_CHARS self)"
proof (induction row arbitrary: cs s)
  case Nil
  then show ?case by simp
next
  case (Cons pixel row)
  obtain r where r: "pixel_to_ascii pixel self = (r, self)"
    using pixel_to_ascii_state [of pixel self] by (cases "pixel_to_ascii pixel self") simp
  obtain rs where rs: "ascii_row_of row self = (rs, self)"
    using ascii_row_of_state [of row self] by (cases "ascii_row_of row self") simp
  from Cons.prems r rs obtain c cs' where c: "r = Inr c" "rs = Inr cs'" "cs = c # cs'"
    by (cases r; cases rs) auto
  have "c \<in> set (ASCII_CHARS self)"
    using r c(1) by (auto dest: pixel_to_ascii_in_ramp)
  moreover have "length cs' = length row \<and> set cs' \<subseteq> set (ASCII_CHARS self)"
    using Cons.IH rs c(2) by simp
  ultimately show ?case using c(3) by simp
qed

lemma ascii_row_of_total:
  "(\<forall>p\<in>set row. \<exists>c. fst (pixel_to_ascii p self) = Inr c) \<Longrightarrow>
     \<exists>cs. ascii_row_of row self = (Inr cs, self)"
proof (induction row)
  case Nil
  show ?case by simp
next
  case (Cons pixel row)
  then obtain c where "fst (pixel_to_ascii pixel self) = Inr c" by auto
  then have c: "pixel_to_ascii pixel self = (Inr c, self)"
    using pixel_to_ascii_state [of pixel self] by (cases "pixel_to_ascii pixel self") simp
  from Cons obtain cs where "ascii_row_of row self = (Inr cs, self)" by auto
  with c show ?case by simp
qed

lemma set_py_slice: "set (py_slice xs lo hi) \<subseteq> set xs"
proof -
  have "set (take n (drop k xs)) \<subseteq> set xs" for n k
    using set_take_subset [of n "drop k xs"] set_drop_subset [of k xs] by blast
  then show ?thesis by (simp add: py_slice_def Let_def)
qed

lemma length_py_slice:
  "0 \<le> i \<Longrightarrow> 0 \<le> w \<Longrightarrow> i + w \<le> int (length xs) \<Longrightarrow>
     length (py_slice xs i (i + w)) = nat w"
  by (auto simp: py_slice_def slice_bound_def Let_def)

lemma rows_loop_chars:
  "rows_loop pixels step i acc self = (Inr rows, s) \<Longrightarrow>
   (\<forall>r\<in>set acc. set r \<subseteq> set (ASCII_CHARS self)) \<Longrightarrow>
   (\<forall>r\<in>set rows. set r \<subseteq> set (ASCII_CHARS self))"
proof (induction pixels step i acc self arbitrary: rows s rule: rows_loop.induct)
  case (1 pixels step i ascii_art self)
  show ?case
  proof (cases "0 < step \<and> i < int (length pixels)")
    case False
    then have "rows_loop pixels step i ascii_art self = (Inr ascii_art, self)"
      by (subst rows_loop.simps) auto
    with "1.prems" show ?thesis by simp
  next
    case True
    obtain r where r: "ascii_row_of (py_slice pixels i (i + width self)) self = (r, self)"
      using ascii_row_of_state [of "py_slice pixels i (i + width self)" self]
      by (cases "ascii_row_of (py_slice pixels i (i + width self)) self") simp
    show ?thesis
    proof (cases r)
      case (Inl e)
      with True r have "rows_loop pixels step i ascii_art self = (Inl e, self)"
        by (subst rows_loop.simps) simp
      with "1.prems" show ?thesis by simp
    next
      case (Inr row)
      with True r have step: "rows_loop pixels step i ascii_art self =
          rows_loop pixels step (i + step) (ascii_art @ [row]) self"
        by (subst rows_loop.simps) simp
      have "set row \<subseteq> set (ASCII_CHARS self)"
        using ascii_row_of_Inr r Inr by blast
      with "1.prems" have acc: "\<forall>r\<in>set (ascii_art @ [row]). set r \<subseteq> set (ASCII_CHARS self)"
        by auto
      show ?thesis
        using "1.IH" [OF True r [symmetric] Inr _ acc] "1.prems"(1) step by simp
    qed
  qed
qed

lemma rows_loop_shape:
  "rows_loop pixels w i acc self = (Inr rows, s) \<Longrightarrow>
   width self = w \<Longrightarrow> 0 < w \<Longrightarrow> 0 \<le> i \<Longrightarrow> 0 \<le> m \<Longrightarrow>
   int (length pixels) = i + w * m \<Longrightarrow>
   (\<forall>r\<in>set acc. int (length r) = w) \<Longrightarrow>
   int (length rows) = int (length acc) + m \<and> (\<forall>r\<in>set rows. int (length r) = w)"
proof (induction pixels w i acc self arbitrary: rows s m rule: rows_loop.induct)
  case (1 pixels step i ascii_art self)
  show ?case
  proof (cases "0 < step \<and> i < int (length pixels)")
    case False
    then have "rows_loop pixels step i ascii_art self = (Inr ascii_art, self)"
      by (subst rows_loop.simps) auto
    moreover have "m = 0"
    proof (rule ccontr)
      assume "m \<noteq> 0"
      with "1.prems" have "1 \<le> m" by simp
      then have "step * 1 \<le> step * m" using "1.prems"(3) by (intro mult_left_mono) auto
      with False "1.prems" show False by simp
    qed
    ultimately show ?thesis using "1.prems" by simp
  next
    case True
    obtain r where r: "ascii_row_of (py_slice pixels i (i + width self)) self = (r, self)"
      using ascii_row_of_state [of "py_slice pixels i (i + width self)" self]
      by (cases "ascii_row_of (py_slice pixels i (i + width self)) self") simp
    show ?thesis
    proof (cases r)
      case (Inl e)
      with True r have "rows_loop pixels step i ascii_art self = (Inl e, self)"
        by (subst rows_loop.simps) simp
      with "1.prems" show ?thesis by simp
    next
      case (Inr row)
      with True r have step: "rows_loop pixels step i ascii_art self =
          rows_loop pixels step (i + step) (ascii_art @ [row]) self"
        by (subst rows_loop.simps) simp
      have m: "1 \<le> m"
      proof (rule ccontr)
        assume "\<not> 1 \<le> m"
        with "1.prems" have "m = 0" by simp
        with True "1.prems" show False by simp
      qed
      then have "step * 1 \<le> step * m" using "1.prems"(3) by (intro mult_left_mono) auto
      then have fits: "i + step \<le> int (length pixels)" using "1.prems" by simp
      have "length row = length (py_slice pixels i (i + width self))"
        using ascii_row_of_Inr r Inr by blast
      also have "\<dots> = nat step"
        using "1.prems" fits length_py_slice [of i step pixels] by simp
      finally have row: "int (length row) = step" using "1.prems" by simp
      with "1.prems" have acc: "\<forall>r\<in>set (ascii_art @ [row]). int (length r) = step"
        by auto
      have len: "int (length pixels) = (i + step) + step * (m - 1)"
        using "1.prems" by (simp add: right_diff_distrib)
      have "int (length rows) = int (length (ascii_art @ [row])) + (m - 1)
            \<and> (\<forall>r\<in>set rows. int (length r) = step)"
        using "1.IH" [OF True r [symmetric] Inr _ "1.prems"(2) "1.prems"(3) _ _ len acc]
          "1.prems"(1,3,4) m step by simp
      then show ?thesis by simp
    qed
  qed
qed

lemma rows_loop_total:
  "(\<forall>p\<in>set pixels. \<exists>c. fst (pixel_to_ascii p self) = Inr c) \<Longrightarrow>
   \<exists>rows. rows_loop pixels step i acc self = (Inr rows, self)"
proof (induction pixels step i acc self rule: rows_loop.induct)
  case (1 pixels step i ascii_art self)
  show ?case
  proof (cases "0 < step \<and> i < int (length pixels)")
    case False
    then have "rows_loop pixels step i ascii_art self = (Inr ascii_art, self)"
      by (subst rows_loop.simps) auto
    then show ?thesis by simp
  next
    case True
    have "\<forall>p\<in>set (py_slice pixels i (i + width self)). \<exists>c. fst (pixel_to_ascii p self) = Inr c"
      using "1.prems" set_py_slice [of pixels i "i + width self"] by blast
    then obtain row where
      r: "ascii_row_of (py_slice pixels i (i + width self)) self = (Inr row, self)"
      using ascii_row_of_total by blast
    with True have step: "rows_loop pixels step i ascii_art self =
        rows_loop pixels step (i + step) (ascii_art @ [row]) self"
      by (subst rows_loop.simps) simp
    show ?thesis
      using "1.IH" [OF True r [symmetric] refl "1.prems"] step by simp
  qed
qed

section \<open>Joining and splitting\<close>

lemma set_str_join: "set (str_join sep rows) \<subseteq> set sep \<union> \<Union> (set ` set rows)"
  by (induction sep rows rule: str_join.induct) auto

lemma str_join_nonempty: "rows \<noteq> [] \<Longrightarrow> hd rows \<noteq> [] \<Longrightarrow> str_join sep rows \<noteq> []"
  by (induction sep rows rule: str_join.induct) auto

lemma split_on_nonempty: "split_on sep s \<noteq> []"
  by (induction s) (auto split: list.split)

lemma split_on_line: "sep \<notin> set r \<Longrightarrow> split_on sep r = [r]"
  by (induction r) auto

lemma split_on_append:
  "sep \<notin> set r \<Longrightarrow> split_on sep (r @ sep # rest) = r # split_on sep rest"
  by (induction r) auto

lemma split_on_join:
  "rows \<noteq> [] \<Longrightarrow> \<forall>r\<in>set rows. sep \<notin> set r \<Longrightarrow>
     split_on sep (str_join [sep] rows) = rows"
proof (induction rows)
  case Nil
  then show ?case by simp
next
  case (Cons r rows)
  show ?case
  proof (cases rows)
    case Nil
    with Cons.prems show ?thesis by (simp add: split_on_line)
  next
    case (Cons y ys)
    with Cons.prems Cons.IH show ?thesis by (simp add: split_on_append)
  qed
qed

lemma contains_self: "contains (t @ b) t"
proof (cases "t @ b")
  case Nil
  then show ?thesis by simp
next
  case (Cons c cs)
  have "take (length t) (c # cs) = t" by (simp only: Cons [symmetric]) simp
  then have "contains (c # cs) t" by simp
  with Cons show ?thesis by simp
qed

lemma contains_infix: "contains (a @ t @ b) t"
proof (induction a)
  case Nil
  show ?case using contains_self by simp
next
  case (Cons x a)
  then show ?case by simp
qed

section \<open>The handlers\<close>

lemma convert_try_eq: "convert_try lib image_data self = (fst (convert_try lib image_data self), self)"
  using convert_try_state [of lib image_data self]
  by (cases "convert_try lib image_data self") simp

lemma convert_returned:
  "fst (convert_try lib image_data self) = Inr s \<Longrightarrow>
     convert_image_to_ascii lib image_data self = (Inr s, self)"
  by (subst convert_image_to_ascii_def, subst convert_try_eq) simp

lemma convert_unsupported:
  "fst (convert_try lib image_data self) = Inl (PyExc UnidentifiedImageError m) \<Longrightarrow>
     convert_image_to_ascii lib image_data self = (Inr ''[Image format not supported]'', self)"
  by (subst convert_image_to_ascii_def, subst convert_try_eq) simp

lemma convert_failed:
  "fst (convert_try lib image_data self) = Inl (PyExc cls m) \<Longrightarrow> cls \<noteq> UnidentifiedImageError \<Longrightarrow>
     convert_image_to_ascii lib image_data self =
       (Inr (''[Error converting image: '' @ m @ '']''), self)"
  by (subst convert_image_to_ascii_def, subst convert_try_eq) (cases cls; simp)

lemma open_failure:
  "Image_open lib image_data = Inl e \<Longrightarrow> fst (convert_try lib image_data self) = Inl e"
  by (simp add: convert_try_def)

text \<open>
  C1. For every input buffer, library and converter, \<open>convert_image_to_ascii\<close> returns a
  string and raises nothing: a byte stream the library cannot identify gives
  \<open>[Image format not supported]\<close>, any other failure of the \<open>try\<close> block gives
  \<open>[Error converting image: <reason>]\<close> with the text of the exception, and in every
  failure case the returned string is non-empty and contains \<open>format\<close> or \<open>Error\<close>.
\<close>

theorem convert_never_raises:
  "(\<exists>s. fst (convert_image_to_ascii lib image_data self) = Inr s)
   \<and> (\<forall>m. Image_open lib image_data = Inl (PyExc UnidentifiedImageError m) \<longrightarrow>
         fst (convert_image_to_ascii lib image_data self) = Inr ''[Image format not supported]'')
   \<and> (\<forall>m. fst (convert_try lib image_data self) = Inl (PyExc UnidentifiedImageError m) \<longrightarrow>
         fst (convert_image_to_ascii lib image_data self) = Inr ''[Image format not supported]'')
   \<and> (\<forall>cls m. fst (convert_try lib image_data self) = Inl (PyExc cls m)
           \<and> cls \<noteq> UnidentifiedImageError \<longrightarrow>
         fst (convert_image_to_ascii lib image_data self) =
           Inr (''[Error converting image: '' @ m @ '']''))
   \<and> (\<forall>e. fst (convert_try lib image_data self) = Inl e \<longrightarrow>
         (\<exists>s. fst (convert_image_to_ascii lib image_data self) = Inr s \<and> s \<noteq> []
            \<and> (contains s ''format'' \<or> contains s ''Error'')))"
proof -
  have fmt: "contains ''[Image format not supported]'' ''format''"
    using contains_infix [of "''[Image ''" "''format''" "'' not supported]''"] by simp
  have err: "contains (''[Error converting image: '' @ m @ '']'') ''Error''" for m
    using contains_infix [of "''[''" "''Error''" "'' converting image: '' @ m @ '']''"] by simp
  have failure: "\<exists>s. fst (convert_image_to_ascii lib image_data self) = Inr s \<and> s \<noteq> []
            \<and> (contains s ''format'' \<or> contains s ''Error'')"
    if e: "fst (convert_try lib image_data self) = Inl e" for e
  proof -
    obtain cls m where c: "e = PyExc cls m" by (cases e)
    show ?thesis
    proof (cases "cls = UnidentifiedImageError")
      case True
      with e c have "fst (convert_image_to_ascii lib image_data self) = Inr ''[Image format not supported]''"
        by (simp add: convert_unsupported)
      with fmt show ?thesis by simp
    next
      case False
      with e c have "fst (convert_image_to_ascii lib image_data self) =
          Inr (''[Error converting image: '' @ m @ '']'')"
        by (simp add: convert_failed)
      with err [of m] show ?thesis by simp
    qed
  qed
  have total: "\<exists>s. fst (convert_image_to_ascii lib image_data self) = Inr s"
  proof (cases "fst (convert_try lib image_data self)")
    case (Inl e)
    then show ?thesis using failure by blast
  next
    case (Inr s)
    then show ?thesis by (simp add: convert_returned)
  qed
  show ?thesis
    using total failure
    by (auto simp: convert_unsupported convert_failed open_failure)
qed

theorem convert_never_raises_witness:
  "fst (convert_image_to_ascii raw_pil [] (ImageToAscii None)) = Inr ''[Image format not supported]''
   \<and> fst (convert_image_to_ascii raw_pil [2, 2, 7] (ImageToAscii None)) =
       Inr ''[Error converting image: image file is truncated]''"
proof -
  have a: "Image_open raw_pil [] = Inl (PyExc UnidentifiedImageError ''cannot identify image file'')"
    by (simp add: raw_pil_def raw_open_def)
  have b: "fst (convert_try raw_pil [2, 2, 7] (ImageToAscii None)) =
       Inl (PyExc OSError ''image file is truncated'')"
    by (simp add: convert_try_def raw_pil_def raw_open_def)
  show ?thesis
    using convert_never_raises [of raw_pil "[]" "ImageToAscii None"]
      convert_never_raises [of raw_pil "[2, 2, 7]" "ImageToAscii None"] a b
    by simp
qed

section \<open>The art of a decoded image\<close>

lemma convert_try_decoded:
  assumes "Image_open lib image_data = Inr opened"
    and "Image_convert lib opened ''L'' = Inr gray"
    and "new_height (width self) (Image_size lib gray) = Inr h"
  shows "convert_try lib image_data self =
     (case Image_resize lib gray (width self, h) of
        Inl e \<Rightarrow> (Inl e, self)
      | Inr resized \<Rightarrow>
     (case Image_getdata lib resized of
        Inl e \<Rightarrow> (Inl e, self)
      | Inr pixels \<Rightarrow>
     (case ascii_rows pixels self of
        (Inl e, self') \<Rightarrow> (Inl e, self')
      | (Inr ascii_art, self') \<Rightarrow> (Inr (str_join [CHR 0x0A] ascii_art), self'))))"
  using assms by (simp add: convert_try_def)

lemma convert_try_Inr:
  "fst (convert_try lib image_data self) = Inr s \<Longrightarrow>
     \<exists>pixels rows. ascii_rows pixels self = (Inr rows, self) \<and> s = str_join [CHR 0x0A] rows"
proof -
  assume s: "fst (convert_try lib image_data self) = Inr s"
  have *: "\<exists>rows. ascii_rows pixels self = (Inr rows, self) \<and> s = str_join [CHR 0x0A] rows"
    if "fst (case ascii_rows pixels self of
               (Inl e, self') \<Rightarrow> (Inl e, self')
             | (Inr ascii_art, self') \<Rightarrow> (Inr (str_join [CHR 0x0A] ascii_art), self')) = Inr s"
    for pixels
    using that ascii_rows_state [of pixels self]
    by (cases "ascii_rows pixels self") (auto split: sum.splits)
  from s show ?thesis
    by (simp add: convert_try_def split: sum.splits) (blast dest: *)
qed

lemma ascii_rows_chars:
  "ascii_rows pixels self = (Inr rows, s) \<Longrightarrow> \<forall>r\<in>set rows. set r \<subseteq> set (ASCII_CHARS self)"
  using rows_loop_chars [of pixels "width self" 0 "[]" self rows s]
  by (auto simp: ascii_rows_def split: if_splits)

lemma ascii_rows_shape:
  assumes "ascii_rows pixels self = (Inr rows, s)" "1 \<le> width self" "0 \<le> h"
    and "int (length pixels) = width self * h"
  shows "int (length rows) = h \<and> (\<forall>r\<in>set rows. int (length r) = width self)"
  using assms rows_loop_shape [of pixels "width self" 0 "[]" self rows s h]
  by (simp add: ascii_rows_def split: if_splits)

lemma ascii_rows_total:
  assumes "\<forall>p\<in>set pixels. \<exists>c. fst (pixel_to_ascii p self) = Inr c" "width self \<noteq> 0"
  shows "\<exists>rows. ascii_rows pixels self = (Inr rows, self)"
  using assms rows_loop_total [of pixels self "width self" 0 "[]"]
  by (simp add: ascii_rows_def)

lemma byte_has_glyph:
  assumes "0 \<le> p" "p \<le> 255"
  shows "\<exists>c. fst (pixel_to_ascii p (ImageToAscii w)) = Inr c"
proof -
  have len: "length (ASCII_CHARS (ImageToAscii w)) = 10" by (simp add: ramp_simps)
  show ?thesis
    using byte_index_range [OF assms] pixel_index_byte [OF len assms]
    by (simp add: pixel_to_ascii_def str_getitem_def ramp_simps)
qed

text \<open>
  C5. Whenever the \<open>try\<close> block of \<open>convert_image_to_ascii\<close> returns, that is, for every
  image the library decodes and converts, the method returns the same string and every
  character of it other than the newline belongs to the ramp \<open>@%#*+=-:. \<close> (with the
  blank): no other character appears in a successful result.
\<close>

theorem output_in_ramp:
  "fst (convert_try lib image_data (ImageToAscii w)) = Inr s \<Longrightarrow>
     fst (convert_image_to_ascii lib image_data (ImageToAscii w)) = Inr s
     \<and> (\<forall>c\<in>set s. c \<noteq> CHR 0x0A \<longrightarrow> c \<in> set ''@%#*+=-:. '')"
proof -
  assume s: "fst (convert_try lib image_data (ImageToAscii w)) = Inr s"
  then obtain pixels rows where
    rows: "ascii_rows pixels (ImageToAscii w) = (Inr rows, ImageToAscii w)"
    and join: "s = str_join [CHR 0x0A] rows"
    using convert_try_Inr by blast
  have "\<forall>r\<in>set rows. set r \<subseteq> set ''@%#*+=-:. ''"
    using ascii_rows_chars [OF rows] by (simp add: ramp_simps)
  then have "\<forall>c\<in>set s. c \<noteq> CHR 0x0A \<longrightarrow> c \<in> set ''@%#*+=-:. ''"
    using set_str_join [of "[CHR 0x0A]" rows] unfolding join by fastforce
  with s show ?thesis by (simp add: convert_returned)
qed


section \<open>Evaluating a height\<close>

lemma ieee_result_Finite:
  "round_binary64 x = r \<Longrightarrow> \<bar>r\<bar> < 2 ^ 1024 \<Longrightarrow> ieee_result x = Finite r"
  by (auto simp: ieee_result_def pow2_def Let_def)

lemma py_truediv_Finite:
  "b \<noteq> 0 \<Longrightarrow> round_binary64 (of_int a / of_int b) = r \<Longrightarrow> \<bar>r\<bar> < 2 ^ 1024 \<Longrightarrow>
     py_truediv a b = Inr (Finite r)"
  by (auto simp: py_truediv_def pow2_def Let_def)

lemma float_of_int_Finite:
  "round_binary64 (of_int a) = r \<Longrightarrow> \<bar>r\<bar> < 2 ^ 1024 \<Longrightarrow> float_of_int a = Inr (Finite r)"
  by (auto simp: float_of_int_def pow2_def Let_def)

lemma new_height_steps:
  assumes "py_truediv oh ow = Inr (Finite a)"
    and "float_of_int w = Inr (Finite f)"
    and "ieee_result (f * a) = Finite t"
    and "ieee_result (t * (1 / 2)) = Finite x"
  shows "new_height w (ow, oh) = Inr (if 0 \<le> x then \<lfloor>x\<rfloor> else \<lceil>x\<rceil>)"
    and "spec_new_height w (ow, oh) = Inr (round_half_even x)"
  using assms by (simp_all add: new_height_def spec_new_height_def int_mul_float_def)

lemma float_of_int_2: "float_of_int 2 = Inr (Finite 2)"
  by (rule float_of_int_Finite) (simp_all add: float_eval)

lemma float_of_int_40: "float_of_int 40 = Inr (Finite 40)"
  by (rule float_of_int_Finite) (simp_all add: float_eval)

lemma height_2x4_at_2: "new_height 2 (2, 4) = Inr 2"
proof -
  have "py_truediv 4 2 = Inr (Finite 2)"
    by (rule py_truediv_Finite) (simp_all add: float_eval)
  moreover have "ieee_result (2 * 2) = Finite 4"
    by (rule ieee_result_Finite) (simp_all add: float_eval)
  moreover have "ieee_result (4 * (1 / 2)) = Finite 2"
    by (rule ieee_result_Finite) (simp_all add: float_eval)
  ultimately show ?thesis
    using new_height_steps(1) [of 4 2 2 2 2 4 2] float_of_int_2 by simp
qed

lemma height_4x3_at_2:
  "new_height 2 (4, 3) = Inr 0" "spec_new_height 2 (4, 3) = Inr 1"
proof -
  have a: "py_truediv 3 4 = Inr (Finite (3 / 4))"
    by (rule py_truediv_Finite) (simp_all add: float_eval)
  have t: "ieee_result (2 * (3 / 4)) = Finite (3 / 2)"
    by (rule ieee_result_Finite) (simp_all add: float_eval)
  have x: "ieee_result (3 / 2 * (1 / 2)) = Finite (3 / 4)"
    by (rule ieee_result_Finite) (simp_all add: float_eval)
  show "new_height 2 (4, 3) = Inr 0"
    using new_height_steps(1) [OF a float_of_int_2 t x] by simp
  show "spec_new_height 2 (4, 3) = Inr 1"
    using new_height_steps(2) [OF a float_of_int_2 t x] by (simp add: round_half_even_def)
qed

lemma height_1x1000_at_40: "new_height 40 (1, 1000) = Inr 20000"
proof -
  have a: "py_truediv 1000 1 = Inr (Finite 1000)"
    by (rule py_truediv_Finite) (simp_all add: float_eval)
  have t: "ieee_result (40 * 1000) = Finite 40000"
    by (rule ieee_result_Finite) (simp_all add: float_eval)
  have x: "ieee_result (40000 * (1 / 2)) = Finite 20000"
    by (rule ieee_result_Finite) (simp_all add: float_eval)
  show ?thesis
    using new_height_steps(1) [OF a float_of_int_40 t x] by simp
qed

lemma height_1000x1_at_40: "new_height 40 (1000, 1) = Inr 0"
proof -
  have a: "py_truediv 1 1000 = Inr (Finite (1152921504606847 / 1152921504606846976))"
    by (rule py_truediv_Finite) (simp_all add: float_eval)
  have t: "ieee_result (40 * (1152921504606847 / 1152921504606846976)) =
      Finite (5764607523034235 / 144115188075855872)"
    by (rule ieee_result_Finite) (simp_all add: float_eval)
  have x: "ieee_result (5764607523034235 / 144115188075855872 * (1 / 2)) =
      Finite (5764607523034235 / 288230376151711744)"
    by (rule ieee_result_Finite) (simp_all add: float_eval)
  show ?thesis
    using new_height_steps(1) [OF a float_of_int_40 t x] by simp
qed

section \<open>A run\<close>

lemma demo_open:
  "Image_open raw_pil [2, 4, 0, 255, 10, 20, 128, 64, 30, 40] =
     Inr \<lparr>raw_size = (2, 4), raw_data = [0, 255, 10, 20, 128, 64, 30, 40]\<rparr>"
  by (simp add: raw_pil_def raw_open_def)

lemma demo_resize:
  "Image_resize raw_pil \<lparr>raw_size = (2, 4), raw_data = [0, 255, 10, 20, 128, 64, 30, 40]\<rparr> (2, 2) =
     Inr \<lparr>raw_size = (2, 2), raw_data = [0, 255, 128, 64]\<rparr>"
  by (simp add: raw_pil_def raw_resize_def upt_conv_Cons)

lemma demo_glyphs:
  "pixel_to_ascii 0 (ImageToAscii (Some 2)) = (Inr (CHR ''@''), ImageToAscii (Some 2))"
  "pixel_to_ascii 255 (ImageToAscii (Some 2)) = (Inr (CHR '' ''), ImageToAscii (Some 2))"
  "pixel_to_ascii 128 (ImageToAscii (Some 2)) = (Inr (CHR ''+''), ImageToAscii (Some 2))"
  "pixel_to_ascii 64 (ImageToAscii (Some 2)) = (Inr (CHR ''#''), ImageToAscii (Some 2))"
  by (simp_all add: pixel_to_ascii_def pixel_index_def str_getitem_def ramp_simps py_truediv_def float_eval)

lemma demo_rows:
  "ascii_rows [0, 255, 128, 64] (ImageToAscii (Some 2)) = (Inr [''@ '', ''+#''], ImageToAscii (Some 2))"
proof -
  let ?c = "ImageToAscii (Some 2)"
  have w: "width ?c = 2" by (simp add: ramp_simps)
  have s0: "py_slice [0, 255, 128, 64 :: int] 0 2 = [0, 255]"
    by (simp add: py_slice_def slice_bound_def)
  have s2: "py_slice [0, 255, 128, 64 :: int] 2 4 = [128, 64]"
    by (simp add: py_slice_def slice_bound_def)
  have "rows_loop [0, 255, 128, 64] 2 4 [''@ '', ''+#''] ?c = (Inr [''@ '', ''+#''], ?c)"
    by (subst rows_loop.simps) simp
  then have "rows_loop [0, 255, 128, 64] 2 2 [''@ ''] ?c = (Inr [''@ '', ''+#''], ?c)"
    by (subst rows_loop.simps) (simp add: w s2 demo_glyphs)
  then have "rows_loop [0, 255, 128, 64] 2 0 [] ?c = (Inr [''@ '', ''+#''], ?c)"
    by (subst rows_loop.simps) (simp add: w s0 demo_glyphs)
  then show ?thesis by (simp add: ascii_rows_def w)
qed

lemma demo_run:
  "convert_try raw_pil [2, 4, 0, 255, 10, 20, 128, 64, 30, 40] (ImageToAscii (Some 2)) =
     (Inr (''@ '' @ [CHR 0x0A] @ ''+#''), ImageToAscii (Some 2))"
proof -
  have "Image_convert raw_pil im ''L'' = Inr im" for im by (simp add: raw_pil_def)
  moreover have "Image_size raw_pil \<lparr>raw_size = (2, 4), raw_data = ps\<rparr> = (2, 4)" for ps
    by (simp add: raw_pil_def)
  moreover have "Image_getdata raw_pil im = Inr (raw_data im)" for im by (simp add: raw_pil_def)
  moreover have "width (ImageToAscii (Some 2)) = 2" by (simp add: ramp_simps)
  ultimately show ?thesis
    by (simp add: convert_try_def demo_open height_2x4_at_2 demo_resize demo_rows)
qed

theorem output_in_ramp_witness:
  "fst (convert_image_to_ascii raw_pil [2, 4, 0, 255, 10, 20, 128, 64, 30, 40] (ImageToAscii (Some 2)))
     = Inr (''@ '' @ [CHR 0x0A] @ ''+#'')
   \<and> set (''@ '' @ [CHR 0x0A] @ ''+#'') - {CHR 0x0A} \<subseteq> set ''@%#*+=-:. ''"
proof -
  have "fst (convert_try raw_pil [2, 4, 0, 255, 10, 20, 128, 64, 30, 40] (ImageToAscii (Some 2)))
      = Inr (''@ '' @ [CHR 0x0A] @ ''+#'')"
    by (simp only: demo_run fst_conv)
  from output_in_ramp [OF this] show ?thesis by blast
qed

section \<open>Rows of a decoded image\<close>

lemma glyph_of_byte:
  assumes "ASCII_CHARS self = ''@%#*+=-:. ''" "0 \<le> p" "p \<le> 255"
  shows "pixel_to_ascii p self = (Inr (''@%#*+=-:. '' ! nat (p * 9 div 255)), self)"
proof -
  have len: "length (ASCII_CHARS self) = 10" using assms(1) by simp
  show ?thesis
    using byte_index_range [OF assms(2,3)] pixel_index_byte [OF len assms(2,3)] assms(1)
    by (simp add: pixel_to_ascii_def str_getitem_def)
qed

lemma ascii_row_of_glyphs:
  assumes "ASCII_CHARS self = ''@%#*+=-:. ''" "\<forall>p\<in>set row. 0 \<le> p \<and> p \<le> 255"
  shows "ascii_row_of row self = (Inr (map (\<lambda>p. ''@%#*+=-:. '' ! nat (p * 9 div 255)) row), self)"
  using assms(2) by (induction row) (simp_all add: glyph_of_byte [OF assms(1)])

lemma py_slice_take_drop:
  "0 \<le> i \<Longrightarrow> 0 \<le> w \<Longrightarrow> py_slice xs i (i + w) = take (nat w) (drop (nat i) xs)"
  by (auto simp: py_slice_def slice_bound_def Let_def min_def nat_add_distrib)

lemma rows_loop_concat:
  "ASCII_CHARS self = ''@%#*+=-:. '' \<Longrightarrow> \<forall>p\<in>set pixels. 0 \<le> p \<and> p \<le> 255 \<Longrightarrow>
   width self = step \<Longrightarrow> 0 < step \<Longrightarrow> 0 \<le> i \<Longrightarrow>
   \<exists>rows. rows_loop pixels step i acc self = (Inr rows, self)
     \<and> concat rows = concat acc @ map (\<lambda>p. ''@%#*+=-:. '' ! nat (p * 9 div 255)) (drop (nat i) pixels)"
proof (induction pixels step i acc self rule: rows_loop.induct)
  case (1 pixels step i ascii_art self)
  let ?g = "\<lambda>p. ''@%#*+=-:. '' ! nat (p * 9 div 255)"
  show ?case
  proof (cases "0 < step \<and> i < int (length pixels)")
    case False
    then have "rows_loop pixels step i ascii_art self = (Inr ascii_art, self)"
      by (subst rows_loop.simps) auto
    moreover have "drop (nat i) pixels = []" using False "1.prems" by simp
    ultimately show ?thesis by simp
  next
    case True
    let ?row = "py_slice pixels i (i + width self)"
    have sl: "?row = take (nat step) (drop (nat i) pixels)"
      using "1.prems" by (simp add: py_slice_take_drop)
    have "\<forall>p\<in>set ?row. 0 \<le> p \<and> p \<le> 255"
      using "1.prems"(2) set_py_slice [of pixels i "i + width self"] by blast
    then have r: "ascii_row_of ?row self = (Inr (map ?g ?row), self)"
      using ascii_row_of_glyphs "1.prems"(1) by blast
    with True have step: "rows_loop pixels step i ascii_art self =
        rows_loop pixels step (i + step) (ascii_art @ [map ?g ?row]) self"
      by (subst rows_loop.simps) simp
    have "0 \<le> i + step" using "1.prems" by simp
    from "1.IH" [OF True r [symmetric] refl "1.prems"(1,2,3,4) this]
    obtain rows where rows: "rows_loop pixels step (i + step) (ascii_art @ [map ?g ?row]) self = (Inr rows, self)"
      and c: "concat rows = concat (ascii_art @ [map ?g ?row]) @ map ?g (drop (nat (i + step)) pixels)"
      by blast
    have "drop (nat (i + step)) pixels = drop (nat step) (drop (nat i) pixels)"
      using "1.prems" by (simp add: nat_add_distrib add.commute)
    then have "map ?g ?row @ map ?g (drop (nat (i + step)) pixels) = map ?g (drop (nat i) pixels)"
      unfolding sl by (simp only: map_append [symmetric] append_take_drop_id)
    with c have "concat rows = concat ascii_art @ map ?g (drop (nat i) pixels)" by simp
    with rows step show ?thesis by simp
  qed
qed

text \<open>
  C4. For a decoded image, a width \<open>w \<ge> 1\<close> and a resampled height \<open>h \<ge> 1\<close>, when the
  resampling step returns its \<open>w * h\<close> samples of 8 bits, the conversion succeeds and its
  output splits on newline into exactly \<open>h\<close> lines, each of them, the last included, of
  length exactly \<open>w\<close>; read row-major the lines are the glyphs of the samples in order.
\<close>

theorem rows_full_width:
  assumes "Image_open lib image_data = Inr opened"
    and "Image_convert lib opened ''L'' = Inr gray"
    and "new_height w (Image_size lib gray) = Inr h"
    and "Image_resize lib gray (w, h) = Inr resized"
    and "Image_getdata lib resized = Inr pixels"
    and "int (length pixels) = w * h"
    and "\<forall>p\<in>set pixels. 0 \<le> p \<and> p \<le> 255"
    and "1 \<le> w" and "1 \<le> h"
  shows "\<exists>s. fst (convert_try lib image_data (ImageToAscii (Some w))) = Inr s
          \<and> fst (convert_image_to_ascii lib image_data (ImageToAscii (Some w))) = Inr s
          \<and> int (length (split_on (CHR 0x0A) s)) = h
          \<and> (\<forall>l\<in>set (split_on (CHR 0x0A) s). int (length l) = w)
          \<and> concat (split_on (CHR 0x0A) s) =
              map (\<lambda>p. ''@%#*+=-:. '' ! nat (p * 9 div 255)) pixels"
proof -
  let ?c = "ImageToAscii (Some w)"
  have w: "width ?c = w" and ramp: "ASCII_CHARS ?c = ''@%#*+=-:. ''"
    by (simp_all add: ramp_simps)
  obtain rows where loop: "rows_loop pixels w 0 [] ?c = (Inr rows, ?c)"
    and glyphs: "concat rows = map (\<lambda>p. ''@%#*+=-:. '' ! nat (p * 9 div 255)) pixels"
    using rows_loop_concat [OF ramp assms(7) w, of 0 "[]"] assms(8) by auto
  have rows: "ascii_rows pixels ?c = (Inr rows, ?c)"
    using loop assms(8) by (simp add: ascii_rows_def w)
  have shape: "int (length rows) = h" "\<forall>r\<in>set rows. int (length r) = w"
    using ascii_rows_shape [OF rows, of h] assms(6,8,9) by (simp_all add: w)
  have "\<forall>r\<in>set rows. set r \<subseteq> set ''@%#*+=-:. ''"
    using ascii_rows_chars [OF rows] by (simp add: ramp)
  then have nl: "\<forall>r\<in>set rows. CHR 0x0A \<notin> set r" by auto
  have ne: "rows \<noteq> []" using shape(1) assms(9) by auto
  have split: "split_on (CHR 0x0A) (str_join [CHR 0x0A] rows) = rows"
    using split_on_join [OF ne nl] .
  have run: "convert_try lib image_data ?c = (Inr (str_join [CHR 0x0A] rows), ?c)"
    using assms(1-5) rows by (simp add: convert_try_def w)
  then have "fst (convert_image_to_ascii lib image_data ?c) = Inr (str_join [CHR 0x0A] rows)"
    by (simp add: convert_returned)
  with run split shape glyphs show ?thesis by simp
qed

theorem rows_full_width_witness:
  "fst (convert_image_to_ascii raw_pil [2, 4, 0, 255, 10, 20, 128, 64, 30, 40] (ImageToAscii (Some 2)))
     = Inr (''@ '' @ [CHR 0x0A] @ ''+#'')
   \<and> split_on (CHR 0x0A) (''@ '' @ [CHR 0x0A] @ ''+#'') = [''@ '', ''+#'']"
proof -
  have size: "new_height 2 (Image_size raw_pil \<lparr>raw_size = (2, 4), raw_data = [0, 255, 10, 20, 128, 64, 30, 40]\<rparr>) = Inr 2"
    by (simp add: raw_pil_def height_2x4_at_2)
  have conv: "Image_convert raw_pil \<lparr>raw_size = (2, 4), raw_data = [0, 255, 10, 20, 128, 64, 30, 40]\<rparr> ''L''
      = Inr \<lparr>raw_size = (2, 4), raw_data = [0, 255, 10, 20, 128, 64, 30, 40]\<rparr>"
    by (simp add: raw_pil_def)
  have data: "Image_getdata raw_pil \<lparr>raw_size = (2, 2), raw_data = [0, 255, 128, 64]\<rparr> = Inr [0, 255, 128, 64]"
    by (simp add: raw_pil_def)
  have "\<exists>s. fst (convert_try raw_pil [2, 4, 0, 255, 10, 20, 128, 64, 30, 40] (ImageToAscii (Some 2))) = Inr s
          \<and> fst (convert_image_to_ascii raw_pil [2, 4, 0, 255, 10, 20, 128, 64, 30, 40] (ImageToAscii (Some 2))) = Inr s
          \<and> int (length (split_on (CHR 0x0A) s)) = 2
          \<and> (\<forall>l\<in>set (split_on (CHR 0x0A) s). int (length l) = 2)
          \<and> concat (split_on (CHR 0x0A) s) =
              map (\<lambda>p. ''@%#*+=-:. '' ! nat (p * 9 div 255)) [0, 255, 128, 64]"
    by (rule rows_full_width [OF demo_open conv size demo_resize data]) simp_all
  then show ?thesis
    by (simp only: demo_run fst_conv) simp
qed

section \<open>The target height\<close>

lemma round_half_even_floor: "round_half_even x = \<lfloor>x\<rfloor> \<or> round_half_even x = \<lfloor>x\<rfloor> + 1"
  by (simp add: round_half_even_def Let_def)

lemma round_near_trunc: "\<bar>round_half_even x - (if 0 \<le> x then \<lfloor>x\<rfloor> else \<lceil>x\<rceil>)\<bar> \<le> 1"
  using round_half_even_floor [of x] by (auto simp: ceiling_altdef)

lemma round_half_even_nonneg: "0 \<le> x \<Longrightarrow> 0 \<le> round_half_even x"
  using round_half_even_floor [of x] by (auto simp: zero_le_floor) 

lemma round_binary64_nonneg: "0 \<le> x \<Longrightarrow> 0 \<le> round_binary64 x"
proof (cases "x = 0")
  case True
  then show ?thesis by (simp add: round_binary64_def)
next
  case False
  assume "0 \<le> x"
  with False have x: "0 < x" by simp
  have "0 \<le> x / pow2 (max (binade x) (- 1022) - 52)"
    using x pow2_pos [of "max (binade x) (- 1022) - 52"] by simp
  then have "0 \<le> round_half_even (x / pow2 (max (binade x) (- 1022) - 52))"
    by (rule round_half_even_nonneg)
  then show ?thesis
    using pow2_pos [of "max (binade x) (- 1022) - 52"]
    by (simp add: round_binary64_pos [OF x])
qed

lemma new_height_Inr:
  assumes "new_height w (ow, oh) = Inr h"
  obtains a f r x where "ow \<noteq> 0"
    and "py_truediv oh ow = Inr (Finite a)" "a = round_binary64 (of_int oh / of_int ow)"
    and "float_of_int w = Inr (Finite f)" "f = round_binary64 (of_int w)"
    and "ieee_result (f * a) = Finite r" "r = round_binary64 (f * a)"
    and "ieee_result (r * (1 / 2)) = Finite x" "x = round_binary64 (r * (1 / 2))"
    and "h = (if 0 \<le> x then \<lfloor>x\<rfloor> else \<lceil>x\<rceil>)"
proof -
  from assms obtain aspect where asp: "py_truediv oh ow = Inr aspect"
    by (auto simp: new_height_def split: sum.splits)
  then have ow: "ow \<noteq> 0" by (auto simp: py_truediv_def)
  from asp ow obtain a where a: "aspect = Finite a" "a = round_binary64 (of_int oh / of_int ow)"
    by (auto simp: py_truediv_def Let_def split: if_splits)
  from assms asp obtain t where t: "int_mul_float w aspect = Inr t"
    by (auto simp: new_height_def split: sum.splits)
  then obtain f where f: "float_of_int w = Inr (Finite f)" "f = round_binary64 (of_int w)"
    and tf: "t = float_mul (Finite f) aspect"
    by (auto simp: int_mul_float_def float_of_int_def Let_def split: sum.splits if_splits)
  from assms asp t have h: "py_int (float_mul t (Finite (1 / 2))) = Inr h"
    by (simp add: new_height_def)
  have tr: "t = ieee_result (f * a)" using tf a by simp
  obtain r where r: "t = Finite r" "r = round_binary64 (f * a)"
  proof (cases t)
    case (Finite r)
    with tr have "r = round_binary64 (f * a)"
      by (auto simp: ieee_result_def Let_def split: if_splits)
    with Finite show ?thesis using that by blast
  next
    case PosInf
    with h show ?thesis by (simp add: inf_times_def)
  next
    case NegInf
    with h show ?thesis by (simp add: inf_times_def)
  next
    case NaN
    with h show ?thesis by simp
  qed
  obtain x where x: "ieee_result (r * (1 / 2)) = Finite x" "x = round_binary64 (r * (1 / 2))"
    using h r(1) by (cases "ieee_result (r * (1 / 2))") (auto simp: ieee_result_def Let_def split: if_splits)
  have "h = (if 0 \<le> x then \<lfloor>x\<rfloor> else \<lceil>x\<rceil>)"
    using h r(1) x(1) by auto
  with that [OF ow] asp a f tr r x show ?thesis by simp
qed

lemma pow2_powr: "pow2 k = 2 powr (of_int k)"
proof (cases "0 \<le> k")
  case True
  then obtain n where n: "k = int n" using zero_le_imp_eq_int by blast
  have "2 powr (real n) = (2::real) ^ n" by (rule powr_realpow) simp
  then show ?thesis by (simp add: pow2_def n)
next
  case False
  then obtain n where n: "k = - int n" "0 < n"
    by (metis neg_0_less_iff_less not_le zero_less_imp_eq_int minus_minus)
  have "2 powr (- real n) = 1 / (2 powr real n)" by (rule powr_minus_divide)
  also have "\<dots> = 1 / (2::real) ^ n" by (simp add: powr_realpow)
  finally show ?thesis using n by (simp add: pow2_def)
qed

lemma pow2_mono: "k \<le> l \<Longrightarrow> pow2 k \<le> pow2 l"
  by (simp add: pow2_powr)

lemma pow2_nat: "pow2 (int k) = 2 ^ k"
  by (simp add: pow2_def)

lemma binade_less:
  assumes "0 < x" "x < 2 ^ k" "1 \<le> k"
  shows "binade x \<le> int k - 1"
proof (cases "1 \<le> x")
  case True
  have "\<lfloor>x\<rfloor> < 2 ^ k" using assms(2) by (simp add: floor_less_iff)
  then have "nat \<lfloor>x\<rfloor> < 2 ^ k" using True by (simp add: nat_less_iff)
  then have "bit_length (nat \<lfloor>x\<rfloor>) \<le> k" by (rule bit_length_le)
  with True show ?thesis by (simp add: binade_def)
next
  case False
  then show ?thesis using assms(3) by (simp add: binade_def)
qed

lemma round_binary64_below:
  assumes "0 \<le> x" "x < 2 ^ k" "1 \<le> k"
  shows "round_binary64 x < 2 ^ (k + 1)"
proof (cases "x = 0")
  case True
  then show ?thesis by (simp add: round_binary64_def)
next
  case False
  with assms have x: "0 < x" by simp
  define e where "e = max (binade x) (- 1022)"
  define ulp where "ulp = pow2 (e - 52)"
  define n where "n = round_half_even (x / ulp)"
  have "e \<le> int k" using binade_less [OF x assms(2,3)] by (simp add: e_def)
  then have "ulp \<le> pow2 (int k)" unfolding ulp_def by (intro pow2_mono) simp
  then have ulp: "ulp \<le> 2 ^ k" "0 < ulp" by (simp_all add: pow2_nat ulp_def pow2_pos)
  have r: "round_binary64 x = of_int n * ulp"
    by (simp add: round_binary64_pos [OF x] e_def ulp_def n_def)
  have "\<bar>of_int n - x / ulp\<bar> \<le> 1 / 2" unfolding n_def by (rule round_half_even_err)
  then have "of_int n \<le> x / ulp + 1 / 2" by linarith
  then have "of_int n * ulp \<le> (x / ulp + 1 / 2) * ulp"
    using ulp(2) by (intro mult_right_mono) simp_all
  also have "\<dots> = x + ulp / 2" using ulp(2) by (simp add: distrib_right)
  also have "\<dots> < 2 ^ k + 2 ^ k" using assms(2) ulp(1) ulp(2) by linarith
  finally show ?thesis by (simp add: r)
qed

lemma new_height_total:
  assumes "0 \<le> w" "w < 2 ^ 31" "0 < ow" "0 \<le> oh" "oh < 2 ^ 31"
  shows "\<exists>h. new_height w (ow, oh) = Inr h \<and> 0 \<le> h"
proof -
  define a where "a = round_binary64 (of_int oh / of_int ow)"
  define f where "f = round_binary64 (of_int w)"
  define r where "r = round_binary64 (f * a)"
  define x where "x = round_binary64 (r * (1 / 2))"
  have q: "0 \<le> real_of_int oh / of_int ow" using assms by simp
  have "real_of_int oh / of_int ow \<le> real_of_int oh / 1"
    using assms by (intro divide_left_mono) simp_all
  also have "\<dots> < 2 ^ 31" using assms(5) by simp
  finally have q': "real_of_int oh / of_int ow < 2 ^ 31" .
  have a: "0 \<le> a" "a < 2 ^ 32"
    unfolding a_def using round_binary64_nonneg [OF q] round_binary64_below [OF q q', of] by simp_all
  have w: "0 \<le> real_of_int w" "real_of_int w < 2 ^ 31"
    using assms(1,2) by simp_all
  have f: "0 \<le> f" "f < 2 ^ 32"
    unfolding f_def using round_binary64_nonneg [OF w(1)] round_binary64_below [OF w] by simp_all
  have fa: "0 \<le> f * a" using a f by simp
  have "f * a < 2 ^ 32 * 2 ^ 32" using a f by (intro mult_strict_mono') simp_all
  then have fa': "f * a < 2 ^ 64" by simp
  have r: "0 \<le> r" "r < 2 ^ 65"
    unfolding r_def using round_binary64_nonneg [OF fa] round_binary64_below [OF fa fa'] by simp_all
  have h: "0 \<le> r * (1 / 2)" "r * (1 / 2) < 2 ^ 64" using r by simp_all
  have x: "0 \<le> x" "x < 2 ^ 65"
    unfolding x_def using round_binary64_nonneg [OF h(1)] round_binary64_below [OF h] by simp_all
  have big: "(2::real) ^ 32 < 2 ^ 1024" "(2::real) ^ 65 < 2 ^ 1024"
    by (simp_all only: power_strict_increasing_iff)
  have "py_truediv oh ow = Inr (Finite a)"
    using assms(3) a big by (intro py_truediv_Finite) (simp_all add: a_def)
  moreover have "float_of_int w = Inr (Finite f)"
    using f big by (intro float_of_int_Finite) (simp_all add: f_def)
  moreover have "ieee_result (f * a) = Finite r"
    using r big by (intro ieee_result_Finite) (simp_all add: r_def)
  moreover have "ieee_result (r * (1 / 2)) = Finite x"
    using x big by (intro ieee_result_Finite) (simp_all add: x_def)
  ultimately have "new_height w (ow, oh) = Inr (if 0 \<le> x then \<lfloor>x\<rfloor> else \<lceil>x\<rceil>)"
    by (rule new_height_steps(1))
  with x(1) show ?thesis by simp
qed

lemma new_height_trunc:
  assumes "new_height w (ow, oh) = Inr h"
  shows "\<exists>aspect t x. py_truediv oh ow = Inr aspect \<and> int_mul_float w aspect = Inr t
           \<and> float_mul t (Finite (1 / 2)) = Finite x
           \<and> h = (if 0 \<le> x then \<lfloor>x\<rfloor> else \<lceil>x\<rceil>)
           \<and> spec_new_height w (ow, oh) = Inr (round_half_even x)
           \<and> \<bar>round_half_even x - h\<bar> \<le> 1
           \<and> (0 \<le> w \<and> 0 < ow \<and> 0 \<le> oh \<longrightarrow> 0 \<le> x \<and> h = \<lfloor>x\<rfloor>)"
proof -
  from assms obtain a f r x where ow: "ow \<noteq> 0"
    and a: "py_truediv oh ow = Inr (Finite a)" "a = round_binary64 (of_int oh / of_int ow)"
    and f: "float_of_int w = Inr (Finite f)" "f = round_binary64 (of_int w)"
    and r: "ieee_result (f * a) = Finite r" "r = round_binary64 (f * a)"
    and x: "ieee_result (r * (1 / 2)) = Finite x" "x = round_binary64 (r * (1 / 2))"
    and h: "h = (if 0 \<le> x then \<lfloor>x\<rfloor> else \<lceil>x\<rceil>)"
    by (rule new_height_Inr)
  have t: "int_mul_float w (Finite a) = Inr (Finite r)"
    using f(1) r(1) by (simp add: int_mul_float_def)
  have m: "float_mul (Finite r) (Finite (1 / 2)) = Finite x" using x(1) by simp
  have spec: "spec_new_height w (ow, oh) = Inr (round_half_even x)"
    using a(1) t m by (simp add: spec_new_height_def)
  have near: "\<bar>round_half_even x - h\<bar> \<le> 1" unfolding h by (rule round_near_trunc)
  have pos: "0 \<le> x \<and> h = \<lfloor>x\<rfloor>" if "0 \<le> w" "0 < ow" "0 \<le> oh"
  proof -
    have "0 \<le> a" unfolding a(2) using that by (intro round_binary64_nonneg) simp
    moreover have "0 \<le> f" unfolding f(2) using that by (intro round_binary64_nonneg) simp
    ultimately have "0 \<le> r" unfolding r(2) by (intro round_binary64_nonneg) simp
    then have "0 \<le> x" unfolding x(2) by (intro round_binary64_nonneg) simp
    with h show ?thesis by simp
  qed
  from a(1) t m h spec near pos show ?thesis by blast
qed

text \<open>
  C3, amended. For every image size and width for which the height is computed, the
  target height is \<open>int(w * (orig_height / orig_width) * 0.5)\<close>: the float product
  truncated toward zero, not rounded to nearest. It differs from the rounded value of the
  same product by at most 1, and for \<open>w \<ge> 0\<close> and a positive image width it is the floor of
  the product. For image dimensions and widths below \<open>2^31\<close> the height is computed
  without an exception and is not negative.
\<close>

theorem new_height_truncates:
  "(new_height w (ow, oh) = Inr h \<longrightarrow>
      (\<exists>aspect t x. py_truediv oh ow = Inr aspect \<and> int_mul_float w aspect = Inr t
           \<and> float_mul t (Finite (1 / 2)) = Finite x
           \<and> h = (if 0 \<le> x then \<lfloor>x\<rfloor> else \<lceil>x\<rceil>)
           \<and> spec_new_height w (ow, oh) = Inr (round_half_even x)
           \<and> \<bar>round_half_even x - h\<bar> \<le> 1
           \<and> (0 \<le> w \<and> 0 < ow \<and> 0 \<le> oh \<longrightarrow> 0 \<le> x \<and> h = \<lfloor>x\<rfloor>)))
   \<and> (0 \<le> w \<and> w < 2 ^ 31 \<and> 0 < ow \<and> 0 \<le> oh \<and> oh < 2 ^ 31 \<longrightarrow>
        (\<exists>h'. new_height w (ow, oh) = Inr h' \<and> 0 \<le> h'))"
proof (intro conjI impI)
  assume "new_height w (ow, oh) = Inr h"
  then show "\<exists>aspect t x. py_truediv oh ow = Inr aspect \<and> int_mul_float w aspect = Inr t
           \<and> float_mul t (Finite (1 / 2)) = Finite x
           \<and> h = (if 0 \<le> x then \<lfloor>x\<rfloor> else \<lceil>x\<rceil>)
           \<and> spec_new_height w (ow, oh) = Inr (round_half_even x)
           \<and> \<bar>round_half_even x - h\<bar> \<le> 1
           \<and> (0 \<le> w \<and> 0 < ow \<and> 0 \<le> oh \<longrightarrow> 0 \<le> x \<and> h = \<lfloor>x\<rfloor>)"
    by (rule new_height_trunc)
next
  assume "0 \<le> w \<and> w < 2 ^ 31 \<and> 0 < ow \<and> 0 \<le> oh \<and> oh < 2 ^ 31"
  then show "\<exists>h'. new_height w (ow, oh) = Inr h' \<and> 0 \<le> h'"
    using new_height_total [of w ow oh] by blast
qed

theorem new_height_truncates_witness:
  "new_height 2 (4, 3) = Inr 0
   \<and> (\<exists>aspect t x. py_truediv 3 4 = Inr aspect \<and> int_mul_float 2 aspect = Inr t
           \<and> float_mul t (Finite (1 / 2)) = Finite x
           \<and> spec_new_height 2 (4, 3) = Inr (round_half_even x)
           \<and> \<bar>round_half_even x - 0\<bar> \<le> 1
           \<and> 0 \<le> x \<and> \<lfloor>x\<rfloor> = 0)"
proof -
  have h: "new_height 2 (4, 3) = Inr 0" by (rule height_4x3_at_2(1))
  from new_height_truncates [of 2 4 3 0] h
  obtain aspect t x where "py_truediv 3 4 = Inr aspect" "int_mul_float 2 aspect = Inr t"
    "float_mul t (Finite (1 / 2)) = Finite x"
    "spec_new_height 2 (4, 3) = Inr (round_half_even x)"
    "\<bar>round_half_even x - 0\<bar> \<le> 1"
    "(0::int) \<le> 2 \<and> (0::int) < 4 \<and> (0::int) \<le> 3 \<longrightarrow> 0 \<le> x \<and> 0 = \<lfloor>x\<rfloor>"
    by blast
  then have "\<exists>aspect t x. py_truediv 3 4 = Inr aspect \<and> int_mul_float 2 aspect = Inr t
           \<and> float_mul t (Finite (1 / 2)) = Finite x
           \<and> spec_new_height 2 (4, 3) = Inr (round_half_even x)
           \<and> \<bar>round_half_even x - 0\<bar> \<le> 1
           \<and> 0 \<le> x \<and> \<lfloor>x\<rfloor> = 0"
    by (intro exI [of _ aspect] exI [of _ t] exI [of _ x]) simp
  with h show ?thesis by simp
qed

theorem height_not_rounded_counterexample:
  "new_height 2 (4, 3) = Inr 0 \<and> spec_new_height 2 (4, 3) = Inr 1"
  by (simp add: height_4x3_at_2)

section \<open>Degenerate heights\<close>

lemma height_200x1_at_40: "new_height 40 (200, 1) = Inr 0"
proof -
  have a: "py_truediv 1 200 = Inr (Finite (5764607523034235 / 1152921504606846976))"
    by (rule py_truediv_Finite) (simp_all add: float_eval)
  have t: "ieee_result (40 * (5764607523034235 / 1152921504606846976)) =
      Finite (3602879701896397 / 18014398509481984)"
    by (rule ieee_result_Finite) (simp_all add: float_eval)
  have x: "ieee_result (3602879701896397 / 18014398509481984 * (1 / 2)) =
      Finite (3602879701896397 / 36028797018963968)"
    by (rule ieee_result_Finite) (simp_all add: float_eval)
  show ?thesis
    using new_height_steps(1) [OF a float_of_int_40 t x] by simp
qed

lemma wide_open:
  "Image_open raw_pil (200 # 1 # replicate 200 0) =
     Inr \<lparr>raw_size = (200, 1), raw_data = replicate 200 0\<rparr>"
  by (simp add: raw_pil_def raw_open_def)

lemma wide_try:
  "fst (convert_try raw_pil (200 # 1 # replicate 200 0) (ImageToAscii None)) =
     Inl (PyExc ValueError ''height and width must be > 0'')"
proof -
  have w: "width (ImageToAscii None) = 40" by (simp add: ramp_simps)
  have "Image_convert raw_pil im ''L'' = Inr im" for im by (simp add: raw_pil_def)
  moreover have "Image_size raw_pil \<lparr>raw_size = (200, 1), raw_data = ps\<rparr> = (200, 1)" for ps
    by (simp add: raw_pil_def)
  moreover have "Image_resize raw_pil im (40, 0) = Inl (PyExc ValueError ''height and width must be > 0'')"
    for im by (simp add: raw_pil_def raw_resize_def split: prod.split)
  ultimately show ?thesis
    by (simp add: convert_try_def wide_open w height_200x1_at_40)
qed

lemma raw_pil_rejects:
  "Image_resize raw_pil im (w, h) = Inr resized \<Longrightarrow> 1 \<le> w \<and> 1 \<le> h"
  by (auto simp: raw_pil_def raw_resize_def split: prod.splits if_splits)

lemma raw_pil_samples:
  assumes "Image_resize raw_pil im (w, h) = Inr resized" "Image_getdata raw_pil resized = Inr pixels"
  shows "int (length pixels) = w * h"
proof -
  have wh: "1 \<le> w" "1 \<le> h" using raw_pil_rejects [OF assms(1)] by simp_all
  obtain ow oh where sz: "raw_size im = (ow, oh)" by (cases "raw_size im")
  have "pixels = concat (map (\<lambda>y. map (\<lambda>x.
                      raw_data im ! nat ((y * oh div h) * ow + x * ow div w)) [0..<nat w])
                    [0..<nat h])"
    using assms wh sz by (auto simp: raw_pil_def raw_resize_def)
  then have "length pixels = nat h * nat w"
    by (simp add: length_concat o_def sum_list_triv)
  then have "int (length pixels) = int (nat h) * int (nat w)" by simp
  with wh show ?thesis by (simp add: mult.commute)
qed

theorem height_not_clamped_counterexample:
  "new_height 40 (1000, 1) = Inr 0
   \<and> new_height 40 (200, 1) = Inr 0
   \<and> fst (convert_image_to_ascii raw_pil (200 # 1 # replicate 200 0) (ImageToAscii None)) =
       Inr ''[Error converting image: height and width must be > 0]''"
  using convert_failed [OF wide_try]
  by (simp add: height_1000x1_at_40 height_200x1_at_40)

text \<open>
  C2, amended. The target height is not clamped: it is 0 for a wide image, and the
  resize is then asked for a height of 0. With a library whose resize rejects a height
  below 1 and otherwise returns its \<open>w * h\<close> samples, the conversion still never returns
  an empty string, for every buffer and every width \<open>w \<ge> 1\<close>: when the height is below 1
  the \<open>try\<close> block fails with the resize's exception and the result is the error
  placeholder. A 1 by 1000 image at width 40 has the height 20000.
\<close>

theorem output_never_empty:
  assumes "1 \<le> width self"
    and "\<forall>img w h resized. Image_resize lib img (w, h) = Inr resized \<longrightarrow> 1 \<le> h"
    and "\<forall>img w h resized pixels. Image_resize lib img (w, h) = Inr resized
           \<and> Image_getdata lib resized = Inr pixels \<longrightarrow> int (length pixels) = w * h"
  shows "(\<exists>s. fst (convert_image_to_ascii lib image_data self) = Inr s \<and> s \<noteq> [])
         \<and> (\<forall>opened gray h. Image_open lib image_data = Inr opened
               \<and> Image_convert lib opened ''L'' = Inr gray
               \<and> new_height (width self) (Image_size lib gray) = Inr h \<and> h < 1 \<longrightarrow>
             (\<exists>e. Image_resize lib gray (width self, h) = Inl e
                \<and> fst (convert_try lib image_data self) = Inl e))
         \<and> new_height 40 (1, 1000) = Inr 20000"
proof -
  have nonempty: "\<exists>s. fst (convert_image_to_ascii lib image_data self) = Inr s \<and> s \<noteq> []"
  proof (cases "fst (convert_try lib image_data self)")
    case (Inl e)
    obtain cls m where e: "e = PyExc cls m" by (cases e)
    show ?thesis
    proof (cases "cls = UnidentifiedImageError")
      case True
      with Inl e show ?thesis by (simp add: convert_unsupported)
    next
      case False
      with Inl e show ?thesis by (simp add: convert_failed)
    qed
  next
    case (Inr s)
    from Inr obtain opened where op: "Image_open lib image_data = Inr opened"
      by (cases "Image_open lib image_data") (simp_all add: convert_try_def)
    from Inr op obtain gray where gr: "Image_convert lib opened ''L'' = Inr gray"
      by (cases "Image_convert lib opened ''L''") (simp_all add: convert_try_def)
    from Inr op gr obtain h where h: "new_height (width self) (Image_size lib gray) = Inr h"
      by (cases "new_height (width self) (Image_size lib gray)") (simp_all add: convert_try_def)
    note dec = convert_try_decoded [OF op gr h]
    from Inr obtain resized where rz: "Image_resize lib gray (width self, h) = Inr resized"
      by (cases "Image_resize lib gray (width self, h)") (simp_all add: dec)
    from Inr rz obtain pixels where px: "Image_getdata lib resized = Inr pixels"
      by (cases "Image_getdata lib resized") (simp_all add: dec)
    from Inr rz px obtain rows where rows: "ascii_rows pixels self = (Inr rows, self)"
      and s: "s = str_join [CHR 0x0A] rows"
      using ascii_rows_state [of pixels self]
      by (cases "ascii_rows pixels self") (auto simp: dec split: sum.splits)
    have h1: "1 \<le> h" using assms(2) rz by blast
    have len: "int (length pixels) = width self * h" using assms(3) rz px by blast
    have shape: "int (length rows) = h" "\<forall>r\<in>set rows. int (length r) = width self"
      using ascii_rows_shape [OF rows assms(1) _ len] h1 by simp_all
    have ne: "rows \<noteq> []" using shape(1) h1 by auto
    then have "hd rows \<in> set rows" by simp
    with shape(2) assms(1) have "hd rows \<noteq> []" by fastforce
    with ne have "s \<noteq> []" unfolding s by (rule str_join_nonempty)
    with Inr show ?thesis by (simp add: convert_returned)
  qed
  have zero: "\<exists>e. Image_resize lib gray (width self, h) = Inl e
                \<and> fst (convert_try lib image_data self) = Inl e"
    if "Image_open lib image_data = Inr opened" "Image_convert lib opened ''L'' = Inr gray"
      "new_height (width self) (Image_size lib gray) = Inr h" "h < 1" for opened gray h
  proof (cases "Image_resize lib gray (width self, h)")
    case (Inl e)
    then show ?thesis by (simp add: convert_try_decoded [OF that(1-3)])
  next
    case (Inr resized)
    with assms(2) have "1 \<le> h" by blast
    with that(4) show ?thesis by simp
  qed
  from nonempty zero show ?thesis by (simp add: height_1x1000_at_40)
qed

theorem output_never_empty_witness:
  "(\<exists>s. fst (convert_image_to_ascii raw_pil (200 # 1 # replicate 200 0) (ImageToAscii None)) = Inr s
        \<and> s \<noteq> [])
   \<and> new_height 40 (1, 1000) = Inr 20000"
proof -
  have w: "1 \<le> width (ImageToAscii None)" by (simp add: ramp_simps)
  have r: "\<forall>img w h resized. Image_resize raw_pil img (w, h) = Inr resized \<longrightarrow> 1 \<le> h"
    using raw_pil_rejects by blast
  have s: "\<forall>img w h resized pixels. Image_resize raw_pil img (w, h) = Inr resized
           \<and> Image_getdata raw_pil resized = Inr pixels \<longrightarrow> int (length pixels) = w * h"
    using raw_pil_samples by blast
  from output_never_empty [OF w r s, of "200 # 1 # replicate 200 0"] show ?thesis by blast
qed

section \<open>Dependence on the object\<close>

lemma pixel_to_ascii_cong:
  "ASCII_CHARS c1 = ASCII_CHARS c2 \<Longrightarrow> fst (pixel_to_ascii v c1) = fst (pixel_to_ascii v c2)"
  by (simp add: pixel_to_ascii_def pixel_index_def split: sum.split)

lemma pixel_to_ascii_fst: "pixel_to_ascii v self = (fst (pixel_to_ascii v self), self)"
  using pixel_to_ascii_state [of v self] by (cases "pixel_to_ascii v self") simp

lemma ascii_row_of_fst: "ascii_row_of row self = (fst (ascii_row_of row self), self)"
  using ascii_row_of_state [of row self] by (cases "ascii_row_of row self") simp

lemma ascii_row_of_cong:
  assumes "ASCII_CHARS c1 = ASCII_CHARS c2"
  shows "fst (ascii_row_of row c1) = fst (ascii_row_of row c2)"
proof (induction row)
  case Nil
  show ?case by simp
next
  case (Cons pixel row)
  obtain r where r: "pixel_to_ascii pixel c1 = (r, c1)" "pixel_to_ascii pixel c2 = (r, c2)"
    using pixel_to_ascii_cong [OF assms, of pixel]
      pixel_to_ascii_fst [of pixel c1] pixel_to_ascii_fst [of pixel c2] by metis
  obtain rs where rs: "ascii_row_of row c1 = (rs, c1)" "ascii_row_of row c2 = (rs, c2)"
    using Cons.IH ascii_row_of_fst [of row c1] ascii_row_of_fst [of row c2] by metis
  show ?case by (simp add: r rs split: sum.split)
qed

lemma rows_loop_cong:
  "width c1 = width c2 \<Longrightarrow> ASCII_CHARS c1 = ASCII_CHARS c2 \<Longrightarrow>
     fst (rows_loop pixels step i acc c1) = fst (rows_loop pixels step i acc c2)"
proof (induction pixels step i acc c1 rule: rows_loop.induct)
  case (1 pixels step i ascii_art self)
  show ?case
  proof (cases "0 < step \<and> i < int (length pixels)")
    case False
    then have "rows_loop pixels step i ascii_art self = (Inr ascii_art, self)"
      by (subst rows_loop.simps) auto
    moreover from False have "rows_loop pixels step i ascii_art c2 = (Inr ascii_art, c2)"
      by (subst rows_loop.simps) auto
    ultimately show ?thesis by simp
  next
    case True
    let ?row = "py_slice pixels i (i + width self)"
    have w: "py_slice pixels i (i + width c2) = ?row" using "1.prems"(1) by simp
    obtain r where r: "ascii_row_of ?row self = (r, self)" "ascii_row_of ?row c2 = (r, c2)"
      using ascii_row_of_cong [OF "1.prems"(2), of ?row]
        ascii_row_of_fst [of ?row self] ascii_row_of_fst [of ?row c2] by metis
    show ?thesis
    proof (cases r)
      case (Inl e)
      with True r(1) have "rows_loop pixels step i ascii_art self = (Inl e, self)"
        by (subst rows_loop.simps) simp
      moreover from Inl True r(2) w have "rows_loop pixels step i ascii_art c2 = (Inl e, c2)"
        by (subst rows_loop.simps) simp
      ultimately show ?thesis by simp
    next
      case (Inr row)
      with True r(1) have "rows_loop pixels step i ascii_art self =
          rows_loop pixels step (i + step) (ascii_art @ [row]) self"
        by (subst rows_loop.simps) simp
      moreover from Inr True r(2) w have "rows_loop pixels step i ascii_art c2 =
          rows_loop pixels step (i + step) (ascii_art @ [row]) c2"
        by (subst rows_loop.simps) simp
      moreover have "fst (rows_loop pixels step (i + step) (ascii_art @ [row]) self) =
          fst (rows_loop pixels step (i + step) (ascii_art @ [row]) c2)"
        using "1.IH" [OF True r(1) [symmetric] Inr "1.prems"] .
      ultimately show ?thesis by simp
    qed
  qed
qed

lemma ascii_rows_cong:
  "width c1 = width c2 \<Longrightarrow> ASCII_CHARS c1 = ASCII_CHARS c2 \<Longrightarrow>
     fst (ascii_rows pixels c1) = fst (ascii_rows pixels c2)"
  using rows_loop_cong [of c1 c2 pixels "width c1" 0 "[]"] by (simp add: ascii_rows_def)

lemma ascii_rows_fst: "ascii_rows pixels self = (fst (ascii_rows pixels self), self)"
  using ascii_rows_state [of pixels self] by (cases "ascii_rows pixels self") simp

lemma convert_try_cong:
  assumes "width c1 = width c2" "ASCII_CHARS c1 = ASCII_CHARS c2"
  shows "fst (convert_try lib image_data c1) = fst (convert_try lib image_data c2)"
proof -
  have "fst (case ascii_rows pixels c1 of
               (Inl e, self') \<Rightarrow> (Inl e, self')
             | (Inr ascii_art, self') \<Rightarrow> (Inr (str_join [CHR 0x0A] ascii_art), self')) =
        fst (case ascii_rows pixels c2 of
               (Inl e, self') \<Rightarrow> (Inl e, self')
             | (Inr ascii_art, self') \<Rightarrow> (Inr (str_join [CHR 0x0A] ascii_art), self'))"
    for pixels
  proof -
    obtain r where "ascii_rows pixels c1 = (r, c1)" "ascii_rows pixels c2 = (r, c2)"
      using ascii_rows_cong [OF assms, of pixels]
        ascii_rows_fst [of pixels c1] ascii_rows_fst [of pixels c2] by metis
    then show ?thesis by (simp split: sum.split)
  qed
  then show ?thesis
    using assms(1) by (simp add: convert_try_def split: sum.split)
qed

section \<open>Calls in the process\<close>

lemma convert_try_io_world:
  assumes refl: "\<And>w. R w w" and trans: "\<And>a b c. R a b \<Longrightarrow> R b c \<Longrightarrow> R a c"
    and eff: "lib_effects_within R lib"
  shows "R w (snd (convert_try_io lib image_data self w))"
proof -
  have o: "R w1 (snd (open_io lib bs w1))" for w1 bs using eff by (simp add: lib_effects_within_def)
  have c: "R w1 (snd (convert_io lib im mode w1))" for w1 im mode using eff by (simp add: lib_effects_within_def)
  have s: "R w1 (snd (size_io lib im w1))" for w1 im using eff by (simp add: lib_effects_within_def)
  have r: "R w1 (snd (resize_io lib im sz w1))" for w1 im sz using eff unfolding lib_effects_within_def by blast
  have g: "R w1 (snd (getdata_io lib im w1))" for w1 im using eff by (simp add: lib_effects_within_def)
  obtain r1 w1 where 1: "open_io lib image_data w = (r1, w1)" by force
  have w1: "R w w1" using o [of w image_data] 1 by simp
  show ?thesis
  proof (cases r1)
    case (Inl e)
    with 1 w1 show ?thesis by (simp add: convert_try_io_def)
  next
    case (Inr opened)
    obtain r2 w2 where 2: "convert_io lib opened ''L'' w1 = (r2, w2)" by force
    have w2: "R w w2" using c [of w1 opened "''L''"] 2 w1 trans by auto
    show ?thesis
    proof (cases r2)
      case (Inl e)
      with 1 2 Inr w2 show ?thesis by (simp add: convert_try_io_def)
    next
      case gray: (Inr gray)
      obtain sz w3 where 3: "size_io lib gray w2 = (sz, w3)"
        by (cases "size_io lib gray w2") blast
      have w3: "R w w3" using s [of w2 gray] 3 w2 trans by auto
      show ?thesis
      proof (cases "new_height (width self) sz")
        case (Inl e)
        with 1 2 3 Inr gray w3 show ?thesis by (simp add: convert_try_io_def)
      next
        case h: (Inr h)
        obtain r4 w4 where 4: "resize_io lib gray (width self, h) w3 = (r4, w4)" by force
        have w4: "R w w4" using r [of w3 gray "(width self, h)"] 4 w3 trans by auto
        show ?thesis
        proof (cases r4)
          case (Inl e)
          with 1 2 3 4 Inr gray h w4 show ?thesis by (simp add: convert_try_io_def)
        next
          case resized: (Inr resized)
          obtain r5 w5 where 5: "getdata_io lib resized w4 = (r5, w5)" by force
          have w5: "R w w5" using g [of w4 resized] 5 w4 trans by auto
          show ?thesis
          proof (cases r5)
            case (Inl e)
            with 1 2 3 4 5 Inr gray h resized w5 show ?thesis by (simp add: convert_try_io_def)
          next
            case pixels: (Inr pixels)
            obtain ra where "ascii_rows pixels self = (ra, self)"
              using ascii_rows_fst by blast
            with 1 2 3 4 5 Inr gray h resized pixels w5 show ?thesis
              by (cases ra) (simp_all add: convert_try_io_def)
          qed
        qed
      qed
    qed
  qed
qed


lemma convert_try_io_self: "snd (fst (convert_try_io lib image_data self w)) = self"
proof -
  have "snd (fst (case ascii_rows pixels self of
                (Inl e, self') \<Rightarrow> ((Inl e, self'), w5)
              | (Inr ascii_art, self') \<Rightarrow> ((Inr (str_join [CHR 0x0A] ascii_art), self'), w5))) = self"
    for pixels and w5 :: 'b
    by (subst ascii_rows_fst) (simp split: sum.split)
  then show ?thesis
    by (simp add: convert_try_io_def split: prod.split sum.split)
qed

lemma convert_try_io_pure:
  assumes "lib_deterministic lib"
  shows "fst (fst (convert_try_io lib image_data self w)) =
         fst (convert_try (pure_at lib w0) image_data self)"
proof -
  let ?p = "pure_at lib w0"
  have o: "fst (open_io lib bs w1) = Image_open ?p bs" for w1 bs
    using assms unfolding lib_deterministic_def pure_at_def by simp
  have c: "fst (convert_io lib im mode w1) = Image_convert ?p im mode" for w1 im mode
    using assms unfolding lib_deterministic_def pure_at_def by simp
  have s: "fst (size_io lib im w1) = Image_size ?p im" for w1 im
    using assms unfolding lib_deterministic_def pure_at_def by simp
  have r: "fst (resize_io lib im sz w1) = Image_resize ?p im sz" for w1 im sz
  proof -
    have "fst (resize_io lib im sz w1) = fst (resize_io lib im sz w0)"
      using assms unfolding lib_deterministic_def by blast
    then show ?thesis by (simp add: pure_at_def)
  qed
  have g: "fst (getdata_io lib im w1) = Image_getdata ?p im" for w1 im
    using assms unfolding lib_deterministic_def pure_at_def by simp
  obtain r1 w1 where 1: "open_io lib image_data w = (r1, w1)" by force
  have p1: "Image_open ?p image_data = r1" using o [of image_data w] 1 by simp
  show ?thesis
  proof (cases r1)
    case (Inl e)
    with 1 p1 show ?thesis by (simp add: convert_try_io_def convert_try_def)
  next
    case (Inr opened)
    obtain r2 w2 where 2: "convert_io lib opened ''L'' w1 = (r2, w2)" by force
    have p2: "Image_convert ?p opened ''L'' = r2" using c [of opened "''L''" w1] 2 by simp
    show ?thesis
    proof (cases r2)
      case (Inl e)
      with 1 2 p1 p2 Inr show ?thesis by (simp add: convert_try_io_def convert_try_def)
    next
      case gray: (Inr gray)
      obtain sz w3 where 3: "size_io lib gray w2 = (sz, w3)"
        by (cases "size_io lib gray w2") blast
      have p3: "Image_size ?p gray = sz" using s [of gray w2] 3 by simp
      show ?thesis
      proof (cases "new_height (width self) sz")
        case (Inl e)
        with 1 2 3 p1 p2 p3 Inr gray show ?thesis by (simp add: convert_try_io_def convert_try_def)
      next
        case h: (Inr h)
        obtain r4 w4 where 4: "resize_io lib gray (width self, h) w3 = (r4, w4)" by force
        have p4: "Image_resize ?p gray (width self, h) = r4"
          using r [of gray "(width self, h)" w3] 4 by simp
        show ?thesis
        proof (cases r4)
          case (Inl e)
          with 1 2 3 4 p1 p2 p3 p4 Inr gray h show ?thesis
            by (simp add: convert_try_io_def convert_try_def)
        next
          case resized: (Inr resized)
          obtain r5 w5 where 5: "getdata_io lib resized w4 = (r5, w5)" by force
          have p5: "Image_getdata ?p resized = r5" using g [of resized w4] 5 by simp
          show ?thesis
          proof (cases r5)
            case (Inl e)
            with 1 2 3 4 5 p1 p2 p3 p4 p5 Inr gray h resized show ?thesis
              by (simp add: convert_try_io_def convert_try_def)
          next
            case pixels: (Inr pixels)
            obtain ra where "ascii_rows pixels self = (ra, self)"
              using ascii_rows_fst by blast
            with 1 2 3 4 5 p1 p2 p3 p4 p5 Inr gray h resized pixels show ?thesis
              by (cases ra) (simp_all add: convert_try_io_def convert_try_def)
          qed
        qed
      qed
    qed
  qed
qed


lemma convert_try_io_eq:
  "convert_try_io lib image_data self w =
     ((fst (fst (convert_try_io lib image_data self w)), self),
      snd (convert_try_io lib image_data self w))"
  using convert_try_io_self [of lib image_data self w]
  by (cases "convert_try_io lib image_data self w") auto

lemma convert_io_world:
  "snd (convert_image_to_ascii_io lib image_data self w) = snd (convert_try_io lib image_data self w)"
  by (subst convert_image_to_ascii_io_def, subst convert_try_io_eq)
     (simp split: sum.split py_exception.split exc_class.split)

lemma convert_io_self:
  "snd (fst (convert_image_to_ascii_io lib image_data self w)) = self"
  by (subst convert_image_to_ascii_io_def, subst convert_try_io_eq)
     (simp split: sum.split py_exception.split exc_class.split)

lemma convert_io_pure:
  assumes "lib_deterministic lib"
  shows "fst (fst (convert_image_to_ascii_io lib image_data self w)) =
         fst (convert_image_to_ascii (pure_at lib w0) image_data self)"
proof -
  have "fst (fst (convert_try_io lib image_data self w)) =
        fst (convert_try (pure_at lib w0) image_data self)"
    using assms by (rule convert_try_io_pure)
  then show ?thesis
    by (subst convert_image_to_ascii_io_def, subst convert_try_io_eq,
        subst convert_image_to_ascii_def, subst convert_try_eq)
       (simp split: sum.split py_exception.split exc_class.split)
qed

lemma call_convert_state:
  "snd (call_convert lib obj image_data st) =
     st\<lparr>world := snd (convert_try_io lib image_data
            \<lparr>ASCII_CHARS = class_ASCII_CHARS st, width = instance_width st obj\<rparr> (world st))\<rparr>"
proof -
  let ?self = "\<lparr>ASCII_CHARS = class_ASCII_CHARS st, width = instance_width st obj\<rparr>"
  obtain r w' where run: "convert_image_to_ascii_io lib image_data ?self (world st) = ((r, ?self), w')"
    using convert_io_self [of lib image_data ?self "world st"]
    by (cases "convert_image_to_ascii_io lib image_data ?self (world st)") auto
  then have "w' = snd (convert_try_io lib image_data ?self (world st))"
    using convert_io_world [of lib image_data ?self "world st"] by simp
  with run show ?thesis by (simp add: call_convert_def)
qed

lemma call_convert_result:
  assumes "lib_deterministic lib"
  shows "fst (call_convert lib obj image_data st) =
         fst (convert_image_to_ascii (pure_at lib w0) image_data
                \<lparr>ASCII_CHARS = class_ASCII_CHARS st, width = instance_width st obj\<rparr>)"
  using convert_io_pure [OF assms, of image_data
      "\<lparr>ASCII_CHARS = class_ASCII_CHARS st, width = instance_width st obj\<rparr>" "world st" w0]
  by (cases "convert_image_to_ascii_io lib image_data
        \<lparr>ASCII_CHARS = class_ASCII_CHARS st, width = instance_width st obj\<rparr> (world st)")
     (auto simp: call_convert_def)

text \<open>
  C8. A call of \<open>convert_image_to_ascii\<close> has no side effect of its own: after the call
  the class attribute \<open>ASCII_CHARS\<close> and the \<open>width\<close> of every converter object are what
  they were, and the rest of the process state differs from the state before only by
  what the library's own calls did to it: it stays within every reflexive and transitive
  relation those calls stay within, so with a library without effects nothing changes.
\<close>

theorem call_changes_nothing_else:
  assumes "\<forall>w. R w w" and "\<forall>a b c. R a b \<and> R b c \<longrightarrow> R a c"
    and "lib_effects_within R lib"
  shows "class_ASCII_CHARS (snd (call_convert lib obj image_data st)) = class_ASCII_CHARS st
         \<and> instance_width (snd (call_convert lib obj image_data st)) = instance_width st
         \<and> snd (call_convert lib obj image_data st) =
             st\<lparr>world := world (snd (call_convert lib obj image_data st))\<rparr>
         \<and> R (world st) (world (snd (call_convert lib obj image_data st)))"
proof -
  let ?self = "\<lparr>ASCII_CHARS = class_ASCII_CHARS st, width = instance_width st obj\<rparr>"
  have "R (world st) (snd (convert_try_io lib image_data ?self (world st)))"
  proof (rule convert_try_io_world [where R = R])
    show "R w w" for w using assms(1) by blast
    show "R a c" if "R a b" "R b c" for a b c using assms(2) that by blast
    show "lib_effects_within R lib" using assms(3) .
  qed
  then show ?thesis by (simp add: call_convert_state)
qed

text \<open>
  C7. The conversion is deterministic: with a library whose results are a function of
  its arguments, a second call on a converter of the same width and the same bytes, in
  the state the first call left, returns the same string as the first; and so does a
  call in any other state of the library and of the other objects. The converter adds
  no randomness and reads no hidden state.
\<close>

theorem calls_agree:
  assumes "lib_deterministic lib"
    and "instance_width st obj1 = instance_width st obj2"
  shows "fst (call_convert lib obj2 image_data (snd (call_convert lib obj1 image_data st))) =
           fst (call_convert lib obj1 image_data st)
         \<and> (\<forall>st'. class_ASCII_CHARS st' = class_ASCII_CHARS st
                \<and> instance_width st' obj2 = instance_width st obj1 \<longrightarrow>
              fst (call_convert lib obj2 image_data st') = fst (call_convert lib obj1 image_data st))"
proof -
  have any: "fst (call_convert lib obj2 image_data st') = fst (call_convert lib obj1 image_data st)"
    if "class_ASCII_CHARS st' = class_ASCII_CHARS st"
      "instance_width st' obj2 = instance_width st obj1" for st' :: "'b process"
    using that call_convert_result [OF assms(1), of obj2 image_data st' "world st"]
      call_convert_result [OF assms(1), of obj1 image_data st "world st"] by simp
  have "fst (call_convert lib obj2 image_data (snd (call_convert lib obj1 image_data st))) =
           fst (call_convert lib obj1 image_data st)"
    by (rule any) (simp_all add: call_convert_state assms(2))
  with any show ?thesis by blast
qed


lemma counting_deterministic: "lib_deterministic (counting lib)"
  by (simp add: lib_deterministic_def counting_def)

lemma counting_effects: "lib_effects_within (\<le>) (counting lib)"
  by (simp add: lib_effects_within_def counting_def)

lemma pure_at_counting: "pure_at (counting lib) n = lib"
  by (simp add: pure_at_def counting_def)

lemma demo_counted:
  "convert_try_io (counting raw_pil) [2, 4, 0, 255, 10, 20, 128, 64, 30, 40] (ImageToAscii (Some 2)) 0 =
     ((Inr (''@ '' @ [CHR 0x0A] @ ''+#''), ImageToAscii (Some 2)), 5)"
proof -
  have "Image_convert raw_pil im ''L'' = Inr im" for im by (simp add: raw_pil_def)
  moreover have "Image_size raw_pil \<lparr>raw_size = (2, 4), raw_data = ps\<rparr> = (2, 4)" for ps
    by (simp add: raw_pil_def)
  moreover have "Image_getdata raw_pil im = Inr (raw_data im)" for im by (simp add: raw_pil_def)
  moreover have "width (ImageToAscii (Some 2)) = 2" by (simp add: ramp_simps)
  ultimately show ?thesis
    by (simp add: convert_try_io_def counting_def demo_open height_2x4_at_2 demo_resize demo_rows)
qed

lemma demo_call_world:
  "world (snd (call_convert (counting raw_pil) 0 [2, 4, 0, 255, 10, 20, 128, 64, 30, 40]
      \<lparr>class_ASCII_CHARS = ''@%#*+=-:. '', instance_width = (\<lambda>obj. 2), world = 0\<rparr>)) = 5"
proof -
  have "\<lparr>ASCII_CHARS = ''@%#*+=-:. '', width = 2\<rparr> = ImageToAscii (Some 2)"
    by (simp add: ImageToAscii_def)
  then show ?thesis by (simp add: call_convert_state demo_counted)
qed

theorem call_changes_nothing_else_witness:
  "class_ASCII_CHARS (snd (call_convert (counting raw_pil) 0 [2, 4, 0, 255, 10, 20, 128, 64, 30, 40]
      \<lparr>class_ASCII_CHARS = ''@%#*+=-:. '', instance_width = (\<lambda>obj. 2), world = 0\<rparr>)) = ''@%#*+=-:. ''
   \<and> instance_width (snd (call_convert (counting raw_pil) 0 [2, 4, 0, 255, 10, 20, 128, 64, 30, 40]
      \<lparr>class_ASCII_CHARS = ''@%#*+=-:. '', instance_width = (\<lambda>obj. 2), world = 0\<rparr>)) = (\<lambda>obj. 2)
   \<and> snd (call_convert (counting raw_pil) 0 [2, 4, 0, 255, 10, 20, 128, 64, 30, 40]
      \<lparr>class_ASCII_CHARS = ''@%#*+=-:. '', instance_width = (\<lambda>obj. 2), world = 0\<rparr>) =
       \<lparr>class_ASCII_CHARS = ''@%#*+=-:. '', instance_width = (\<lambda>obj. 2), world = 5\<rparr>"
proof -
  have a: "\<forall>w::nat. w \<le> w" by simp
  have b: "\<forall>a b c::nat. a \<le> b \<and> b \<le> c \<longrightarrow> a \<le> c" by simp
  from call_changes_nothing_else [OF a b counting_effects, of raw_pil 0
      "[2, 4, 0, 255, 10, 20, 128, 64, 30, 40]"
      "\<lparr>class_ASCII_CHARS = ''@%#*+=-:. '', instance_width = (\<lambda>obj. 2), world = 0\<rparr>"]
  show ?thesis by (simp add: demo_call_world)
qed

theorem calls_agree_witness:
  "fst (call_convert (counting raw_pil) 1 [2, 4, 0, 255, 10, 20, 128, 64, 30, 40]
         (snd (call_convert (counting raw_pil) 0 [2, 4, 0, 255, 10, 20, 128, 64, 30, 40]
            \<lparr>class_ASCII_CHARS = ''@%#*+=-:. '', instance_width = (\<lambda>obj. 2), world = 0\<rparr>))) =
   fst (call_convert (counting raw_pil) 0 [2, 4, 0, 255, 10, 20, 128, 64, 30, 40]
          \<lparr>class_ASCII_CHARS = ''@%#*+=-:. '', instance_width = (\<lambda>obj. 2), world = 0\<rparr>)"
proof -
  have w: "instance_width \<lparr>class_ASCII_CHARS = ''@%#*+=-:. '', instance_width = (\<lambda>obj. 2), world = 0::nat\<rparr> 0
      = instance_width \<lparr>class_ASCII_CHARS = ''@%#*+=-:. '', instance_width = (\<lambda>obj. 2), world = 0::nat\<rparr> 1"
    by simp
  from calls_agree [OF counting_deterministic w, of raw_pil "[2, 4, 0, 255, 10, 20, 128, 64, 30, 40]"]
  show ?thesis by blast
qed


section \<open>The width of the chat view\<close>

text \<open>
  C9, on the code: \<open>ChatView.__init__\<close> builds its converter with \<open>ImageToAscii()\<close> and
  receives no configuration, so the chat view renders at width 40 whatever the handler,
  dialog and callback are; for a persisted configuration whose \<open>ascii_art_width\<close> is 80
  the property \<open>Config.ascii_art_width\<close> returns 80, and the view still uses 40.
\<close>

theorem chat_view_width_ignores_config:
  "ascii_art_width (fill_defaults DEFAULT_CONFIG
      [''api_id'' \<mapsto> PyStr ''1'', ''api_hash'' \<mapsto> PyStr ''h'', ''ascii_art_width'' \<mapsto> PyInt 80]) = PyInt 80
   \<and> width (image_converter (ChatView handler dlg close)) = 40"
  by (simp add: ascii_art_width_def DEFAULT_CONFIG_def ChatView_def ImageToAscii_def)

end
